theory Spec2Isabelle
  imports Main "HOL-Library.Sublist"
begin

section \<open>Host string primitives\<close>

text \<open>
  The program is TypeScript. Its strings are sequences of code units, modelled as
  \<open>string\<close> (a \<open>char list\<close>, code units below 256); positions are \<open>int\<close>, because the
  program stores the \<open>-1\<close> of a failed search in its cursor and keeps computing with it.
  Each primitive follows the host's definition, including what it does out of range.
\<close>

definition charAt :: "string \<Rightarrow> int \<Rightarrow> char option" where
  \<comment> \<open>\<open>S[i]\<close>: \<open>undefined\<close> (here \<open>None\<close>) out of range; \<open>S.charCodeAt(i)\<close> is \<open>NaN\<close> exactly then\<close>
  "charAt S i = (if 0 \<le> i \<and> i < int (length S) then Some (S ! nat i) else None)"

definition clampPos :: "string \<Rightarrow> int \<Rightarrow> nat" where
  \<comment> \<open>a position argument clamped into \<open>[0, length]\<close>\<close>
  "clampPos S i = (if i < 0 then 0 else if int (length S) < i then length S else nat i)"

fun indexFrom :: "string \<Rightarrow> string \<Rightarrow> nat \<Rightarrow> int" where
  \<comment> \<open>first occurrence of \<open>pat\<close> in a text whose first character has index \<open>k\<close>\<close>
  "indexFrom pat [] k = (if pat = [] then int k else - 1)"
| "indexFrom pat (x # xs) k = (if prefix pat (x # xs) then int k else indexFrom pat xs (Suc k))"

definition indexOf :: "string \<Rightarrow> string \<Rightarrow> int \<Rightarrow> int" where
  \<comment> \<open>\<open>S.indexOf(pat, from)\<close>\<close>
  "indexOf S pat from = (let k = clampPos S from in indexFrom pat (drop k S) k)"

fun lastIndexUpto :: "char \<Rightarrow> string \<Rightarrow> nat \<Rightarrow> int" where
  \<comment> \<open>last index \<open>\<le> k\<close> holding the character, searching backwards\<close>
  "lastIndexUpto c S 0 = (if charAt S 0 = Some c then 0 else - 1)"
| "lastIndexUpto c S (Suc k) =
     (if charAt S (int (Suc k)) = Some c then int (Suc k) else lastIndexUpto c S k)"

definition lastIndexOf :: "string \<Rightarrow> char \<Rightarrow> int \<Rightarrow> int" where
  \<comment> \<open>\<open>S.lastIndexOf(c, from)\<close> for a one-character pattern\<close>
  "lastIndexOf S c from = lastIndexUpto c S (clampPos S from)"

definition substring :: "string \<Rightarrow> int \<Rightarrow> int \<Rightarrow> string" where
  \<comment> \<open>\<open>S.substring(a, b)\<close>: both ends clamped, then swapped when \<open>a > b\<close>\<close>
  "substring S a b =
     (let a' = clampPos S a; b' = clampPos S b; lo = min a' b'; hi = max a' b'
      in take (hi - lo) (drop lo S))"

definition substringFrom :: "string \<Rightarrow> int \<Rightarrow> string" where
  \<comment> \<open>\<open>S.substring(a)\<close>\<close>
  "substringFrom S a = drop (clampPos S a) S"

definition sliceIndex :: "string \<Rightarrow> int \<Rightarrow> nat" where
  \<comment> \<open>an end of \<open>S.slice\<close>: a negative index counts from the end\<close>
  "sliceIndex S i =
     (if i < 0 then nat (max (int (length S) + i) 0) else nat (min i (int (length S))))"

definition slice :: "string \<Rightarrow> int \<Rightarrow> int \<Rightarrow> string" where
  \<comment> \<open>\<open>S.slice(a, b)\<close>: empty when the start is not before the end\<close>
  "slice S a b = (let lo = sliceIndex S a; hi = sliceIndex S b in take (hi - lo) (drop lo S))"

definition sliceFrom :: "string \<Rightarrow> int \<Rightarrow> string" where
  \<comment> \<open>\<open>S.slice(a)\<close>\<close>
  "sliceFrom S a = drop (sliceIndex S a) S"

definition str_includes :: "string \<Rightarrow> string \<Rightarrow> bool" where
  \<comment> \<open>\<open>S.includes(pat)\<close>\<close>
  "str_includes S pat = (indexOf S pat 0 \<noteq> - 1)"

definition isWhiteSpace :: "char \<Rightarrow> bool" where
  \<comment> \<open>what \<open>trim\<close> removes, among the code units below 256\<close>
  "isWhiteSpace c =
     (c \<in> set [CHR 0x09, CHR 0x0A, CHR 0x0B, CHR 0x0C, CHR 0x0D, CHR '' '', CHR 0xA0])"

definition trim :: "string \<Rightarrow> string" where
  "trim s = rev (dropWhile isWhiteSpace (rev (dropWhile isWhiteSpace s)))"

definition toLowerCase :: "string \<Rightarrow> string" where
  \<comment> \<open>on code units below 128; the program only compares the result with \<open>cdata\<close>\<close>
  "toLowerCase s =
     map (\<lambda>c. let k = (of_char c :: nat) in if 64 < k \<and> k < 91 then char_of (k + 32) else c) s"

fun splitNewline :: "string \<Rightarrow> string list" where
  \<comment> \<open>\<open>s.split("\n")\<close>: never empty, one more entry than there are newlines\<close>
  "splitNewline [] = [[]]"
| "splitNewline (c # cs) =
     (if c = CHR 0x0A then [] # splitNewline cs
      else (case splitNewline cs of l # ls \<Rightarrow> (c # l) # ls | [] \<Rightarrow> [[c]]))"

fun repeat :: "string \<Rightarrow> nat \<Rightarrow> string" where
  \<comment> \<open>\<open>s.repeat(n)\<close>\<close>
  "repeat s 0 = []"
| "repeat s (Suc n) = s @ repeat s n"

fun join :: "string \<Rightarrow> string list \<Rightarrow> string" where
  \<comment> \<open>\<open>xs.join(sep)\<close>\<close>
  "join sep [] = []"
| "join sep [x] = x"
| "join sep (x # y # ys) = x @ sep @ join sep (y # ys)"

section \<open>The parsed tree\<close>

text \<open>
  \<open>TNode\<close> has a tag name, attributes and children; a child is a \<open>TNode\<close> or a string. An
  attribute value is a string or \<open>null\<close> (here \<open>None\<close>). The attribute record keeps its keys in
  insertion order; assigning to a key that is present keeps its place.
\<close>

type_synonym attrs = "(string \<times> string option) list"

datatype child =
    TNode (tagName: string) (attributes: attrs) (children: "child list")
  | Text string

fun setAttr :: "attrs \<Rightarrow> string \<Rightarrow> string option \<Rightarrow> attrs" where
  \<comment> \<open>\<open>attributes[name] = value\<close>\<close>
  "setAttr [] name v = [(name, v)]"
| "setAttr ((k, w) # kvs) name v =
     (if k = name then (k, v) # kvs else (k, w) # setAttr kvs name v)"

datatype error = UnexpectedCloseTag (errLine: nat) (errColumn: nat) (errChar: "char option")

text \<open>
  The options the scanner reads. \<open>selfClosingTags\<close> is the list the program computes from
  \<open>options.selfClosingTags || options.noChildNodes || DEFAULT_SELF_CLOSING\<close>.
\<close>

record scanOptions =
  keepComments :: bool
  keepWhitespace :: bool
  selfClosingTags :: "string list"

definition NAME_END_CHARS :: string where
  "NAME_END_CHARS = [CHR 0x0D, CHR 0x0A, CHR 0x09, CHR ''>'', CHR ''/'', CHR ''='', CHR '' '']"

definition DEFAULT_SELF_CLOSING :: "string list" where
  "DEFAULT_SELF_CLOSING = [''img'', ''br'', ''input'', ''meta'', ''link'', ''hr'']"

definition defaultScan :: scanOptions where
  "defaultScan =
     \<lparr>keepComments = False, keepWhitespace = False, selfClosingTags = DEFAULT_SELF_CLOSING\<rparr>"

definition isLetter :: "char \<Rightarrow> bool" where
  \<comment> \<open>\<open>(c > 64 && c < 91) || (c > 96 && c < 123)\<close>\<close>
  "isLetter c = (let k = (of_char c :: nat) in (64 < k \<and> k < 91) \<or> (96 < k \<and> k < 123))"


section \<open>The scanner\<close>

text \<open>
  The closures of \<open>parse\<close> share the text \<open>S\<close> and the cursor \<open>pos\<close>; here each takes the
  cursor and returns the new one with its result. The inner \<open>while\<close> loops that only move
  the cursor forward are total functions.
\<close>

function parseNameLoop :: "string \<Rightarrow> int \<Rightarrow> int" where
  \<comment> \<open>\<open>while (!NAME_END_CHARS.includes(S[pos]) && S[pos]) pos++\<close>\<close>
  "parseNameLoop S pos =
     (case charAt S pos of
        None \<Rightarrow> pos
      | Some c \<Rightarrow> if c \<in> set NAME_END_CHARS then pos else parseNameLoop S (pos + 1))"
  by pat_completeness auto
termination
  by (relation "measure (\<lambda>(S, pos). nat (int (length S) - pos))")
     (auto simp: charAt_def split: if_splits)

definition parseName :: "string \<Rightarrow> int \<Rightarrow> string \<times> int" where
  "parseName S pos = (let p = parseNameLoop S pos in (slice S pos p, p))"

definition parseText :: "string \<Rightarrow> int \<Rightarrow> string \<times> int" where
  \<comment> \<open>the text up to the next \<open><\<close>; the cursor is left on its last character\<close>
  "parseText S pos =
     (let p = indexOf S ''<'' pos - 1;
          p' = (if p = - 2 then int (length S) else p)
      in (slice S pos (p' + 1), p'))"

definition parseString :: "string \<Rightarrow> int \<Rightarrow> string \<times> int" where
  \<comment> \<open>called on a quote character; the cursor is left on the closing quote, or is \<open>-1\<close>\<close>
  "parseString S pos =
     (let quote = (case charAt S pos of Some q \<Rightarrow> [q] | None \<Rightarrow> []);
          start = pos + 1;
          p = indexOf S quote start
      in (slice S start p, p))"

function skipToQuote :: "string \<Rightarrow> int \<Rightarrow> int" where
  \<comment> \<open>the loop under "Skip to quote or end"; a code unit 0 is falsy and stops it too\<close>
  "skipToQuote S pos =
     (case charAt S pos of
        None \<Rightarrow> pos
      | Some c \<Rightarrow>
          if c = CHR 0x00 \<or> c = CHR 0x27 \<or> c = CHR 0x22 \<or> isLetter c \<or> c = CHR ''>'' then pos
          else skipToQuote S (pos + 1))"
  by pat_completeness auto
termination
  by (relation "measure (\<lambda>(S, pos). nat (int (length S) - pos))")
     (auto simp: charAt_def split: if_splits)

function commentLoop :: "string \<Rightarrow> int \<Rightarrow> int" where
  \<comment> \<open>the search for \<open>-->\<close>: from one \<open>>\<close> to the next until two \<open>-\<close> precede it\<close>
  "commentLoop S pos =
     (if pos \<noteq> - 1 \<and>
         \<not> (charAt S pos = Some CHR ''>'' \<and> charAt S (pos - 1) = Some CHR ''-'' \<and>
            charAt S (pos - 2) = Some CHR ''-'')
      then commentLoop S (indexOf S ''>'' (pos + 1))
      else pos)"
  by pat_completeness auto


lemma indexFrom_found:
  "indexFrom pat xs k \<noteq> - 1 \<Longrightarrow>
     int k \<le> indexFrom pat xs k \<and> indexFrom pat xs k + int (length pat) \<le> int k + int (length xs)"
proof (induction xs arbitrary: k)
  case Nil
  then show ?case by (simp split: if_splits)
next
  case (Cons x xs)
  show ?case
  proof (cases "prefix pat (x # xs)")
    case True
    then show ?thesis using prefix_length_le [OF True] by simp
  next
    case False
    with Cons.prems have "indexFrom pat xs (Suc k) \<noteq> - 1" by simp
    from Cons.IH [OF this] False show ?thesis by simp
  qed
qed

lemma indexOf_unfold:
  "indexOf S pat from = indexFrom pat (drop (clampPos S from) S) (clampPos S from)"
  by (simp add: indexOf_def Let_def)

lemma indexOf_found:
  assumes "indexOf S pat from \<noteq> - 1"
  shows "int (clampPos S from) \<le> indexOf S pat from"
    and "indexOf S pat from + int (length pat) \<le> int (length S)"
proof -
  let ?k = "clampPos S from"
  have k: "?k \<le> length S" by (auto simp: clampPos_def)
  from assms have "indexFrom pat (drop ?k S) ?k \<noteq> - 1" by (simp add: indexOf_unfold)
  from indexFrom_found [OF this] k
  show "int ?k \<le> indexOf S pat from" and "indexOf S pat from + int (length pat) \<le> int (length S)"
    by (simp_all add: indexOf_unfold)
qed

lemma indexOf_gt:
  assumes "indexOf S [c] (pos + 1) \<noteq> - 1"
  shows "pos < indexOf S [c] (pos + 1)" and "indexOf S [c] (pos + 1) < int (length S)"
proof -
  from indexOf_found [OF assms]
  have a: "int (clampPos S (pos + 1)) \<le> indexOf S [c] (pos + 1)"
    and b: "indexOf S [c] (pos + 1) + 1 \<le> int (length S)" by simp_all
  from b show "indexOf S [c] (pos + 1) < int (length S)" by simp
  from a b show "pos < indexOf S [c] (pos + 1)"
    by (simp add: clampPos_def split: if_splits)
qed

termination commentLoop
proof (relation "measure (\<lambda>(S, pos). if pos = - 1 then 0 else 1 + nat (int (length S) + 1 - pos))")
  show "wf (measure (\<lambda>(S, pos). if pos = - 1 then 0 else 1 + nat (int (length S) + 1 - pos)))"
    by simp
next
  fix S :: string and pos :: int
  assume "pos \<noteq> - 1 \<and>
         \<not> (charAt S pos = Some CHR ''>'' \<and> charAt S (pos - 1) = Some CHR ''-'' \<and>
            charAt S (pos - 2) = Some CHR ''-'')"
  then have p: "pos \<noteq> - 1" by simp
  show "((S, indexOf S ''>'' (pos + 1)), (S, pos))
      \<in> measure (\<lambda>(S, pos). if pos = - 1 then 0 else 1 + nat (int (length S) + 1 - pos))"
  proof (cases "indexOf S ''>'' (pos + 1) = - 1")
    case True
    with p show ?thesis by simp
  next
    case False
    from indexOf_gt [OF False] p False show ?thesis by simp
  qed
qed

function doctypeLoop :: "string \<Rightarrow> int \<Rightarrow> bool \<Rightarrow> int" where
  \<comment> \<open>to the first \<open>>\<close> met while \<open>encapsulated\<close> is off, or to the end of the text\<close>
  "doctypeLoop S pos encapsulated =
     (case charAt S pos of
        None \<Rightarrow> pos
      | Some c \<Rightarrow>
          if c \<noteq> CHR ''>'' \<or> encapsulated
          then doctypeLoop S (pos + 1)
                 (if c = CHR ''['' then True
                  else if encapsulated \<and> c = CHR '']'' then False
                  else encapsulated)
          else pos)"
  by pat_completeness auto
termination
  by (relation "measure (\<lambda>(S, pos, e). nat (int (length S) - pos))")
     (auto simp: charAt_def split: if_splits)

definition unexpectedCloseTag :: "string \<Rightarrow> int \<Rightarrow> error" where
  \<comment> \<open>the three numbers the message prints: \<open>lines.length - 1\<close>,
     \<open>lines[lines.length - 1].length + 1\<close> and \<open>S[pos]\<close>\<close>
  "unexpectedCloseTag S pos =
     (let lines = splitNewline (substring S 0 pos)
      in UnexpectedCloseTag (length lines - 1) (length (last lines) + 1) (charAt S pos))"


declare parseNameLoop.simps [simp del] skipToQuote.simps [simp del]
  commentLoop.simps [simp del] doctypeLoop.simps [simp del]

lemma charAt_SomeD: "charAt S pos = Some c \<Longrightarrow> 0 \<le> pos \<and> pos < int (length S)"
  by (simp add: charAt_def split: if_splits)

lemma parseNameLoop_ge: "pos \<le> parseNameLoop S pos"
proof (induction S pos rule: parseNameLoop.induct)
  case (1 S pos)
  show ?case
  proof (cases "charAt S pos")
    case None
    then show ?thesis by (simp add: parseNameLoop.simps [of S pos])
  next
    case (Some c)
    with 1 [OF Some] show ?thesis
      by (cases "c \<in> set NAME_END_CHARS") (simp_all add: parseNameLoop.simps [of S pos])
  qed
qed

lemma parseNameLoop_gt:
  assumes "charAt S pos = Some c" and "c \<notin> set NAME_END_CHARS"
  shows "pos < parseNameLoop S pos"
proof -
  have "parseNameLoop S pos = parseNameLoop S (pos + 1)"
    using assms by (simp add: parseNameLoop.simps [of S pos])
  with parseNameLoop_ge [of "pos + 1" S] show ?thesis by simp
qed

lemma isLetter_not_name_end: "isLetter c \<Longrightarrow> c \<notin> set NAME_END_CHARS"
  by (auto simp: isLetter_def NAME_END_CHARS_def Let_def)

lemma skipToQuote_ge: "pos \<le> skipToQuote S pos"
proof (induction S pos rule: skipToQuote.induct)
  case (1 S pos)
  show ?case
  proof (cases "charAt S pos")
    case None
    then show ?thesis by (simp add: skipToQuote.simps [of S pos])
  next
    case (Some c)
    show ?thesis
    proof (cases "c = CHR 0x00 \<or> c = CHR 0x27 \<or> c = CHR 0x22 \<or> isLetter c \<or> c = CHR ''>''")
      case True
      with Some show ?thesis by (simp add: skipToQuote.simps [of S pos])
    next
      case False
      with 1 [OF Some False] Some show ?thesis by (simp add: skipToQuote.simps [of S pos])
    qed
  qed
qed

function parseAttrs :: "string \<Rightarrow> int \<Rightarrow> attrs \<Rightarrow> attrs \<times> int \<times> bool" where
  \<comment> \<open>the loop under "Parse atts"; the flag says that \<open>parseNode\<close> returned from
     inside it, which it does when a quoted value has no closing quote\<close>
  "parseAttrs S pos atts =
     (case charAt S pos of
        None \<Rightarrow> (atts, pos, False)
      | Some c \<Rightarrow>
          if c = CHR ''>'' then (atts, pos, False)
          else if isLetter c then
            (let name = fst (parseName S pos);
                 p1 = snd (parseName S pos);
                 p2 = skipToQuote S p1
             in if charAt S p2 = Some CHR 0x27 \<or> charAt S p2 = Some CHR 0x22
                then (let val = fst (parseString S p2);
                          p3 = snd (parseString S p2)
                      in if p3 = - 1 then (atts, p3, True)
                         else parseAttrs S (p3 + 1) (setAttr atts name (Some val)))
                else parseAttrs S (p2 - 1 + 1) (setAttr atts name None))
          else parseAttrs S (pos + 1) atts)"
  by pat_completeness auto
termination
proof (relation "measure (\<lambda>(S, pos, a). nat (int (length S) - pos))", goal_cases)
  case 1
  show ?case by simp
next
  case (2 S pos atts c name p1 p2 val p3)
  from 2 have lt: "pos < p1"
    using parseNameLoop_gt [of S pos c] isLetter_not_name_end [of c]
    by (simp add: parseName_def Let_def)
  from 2 have le: "p1 \<le> p2" using skipToQuote_ge [of p1 S] by simp
  from 2 obtain q where q: "charAt S p2 = Some q" by auto
  from 2 q have p3: "p3 = indexOf S [q] (p2 + 1)" by (simp add: parseString_def Let_def)
  from 2 p3 have "p2 < p3" using indexOf_gt(1) [of S q p2] by simp
  with lt le charAt_SomeD [OF 2(1)] show ?case by simp
next
  case (3 S pos atts c name p1 p2)
  from 3 have lt: "pos < p1"
    using parseNameLoop_gt [of S pos c] isLetter_not_name_end [of c]
    by (simp add: parseName_def Let_def)
  from 3 have le: "p1 \<le> p2" using skipToQuote_ge [of p1 S] by simp
  with lt charAt_SomeD [OF 3(1)] show ?case by simp
next
  case (4 S pos atts c)
  with charAt_SomeD [OF 4(1)] show ?case by simp
qed

declare parseAttrs.simps [simp del]


text \<open>
  \<open>parseChildren\<close> and \<open>parseNode\<close> call each other, and the cursor they share can move
  backwards (see \<open>parseNode\<close> on \<open>script\<close>), so the program need not return. The model counts
  loop iterations and calls down from a bound: \<open>None\<close> says the bound was reached,
  \<open>Some (Inl e)\<close> that the program threw \<open>e\<close>, \<open>Some (Inr (v, pos))\<close> that it returned \<open>v\<close>
  and left the cursor at \<open>pos\<close>. \<open>kids\<close> is the array \<open>children\<close> built so far.
\<close>

fun parseChildren ::
    "nat \<Rightarrow> scanOptions \<Rightarrow> string \<Rightarrow> string \<Rightarrow> int \<Rightarrow> child list \<Rightarrow> (error + child list \<times> int) option"
  and parseNode :: "nat \<Rightarrow> scanOptions \<Rightarrow> string \<Rightarrow> int \<Rightarrow> (error + child \<times> int) option"
where
  "parseChildren 0 opts S tag pos kids = None"
| "parseChildren (Suc n) opts S tag pos kids =
     (if charAt S pos = None then Some (Inr (kids, pos))
      else if charAt S pos = Some CHR ''<'' then
        (if charAt S (pos + 1) = Some CHR ''/'' then
           (let closeStart = pos + 2;
                p = indexOf S ''>'' pos;
                closeTag = substring S closeStart p
            in if \<not> str_includes closeTag tag then Some (Inl (unexpectedCloseTag S p))
               else Some (Inr (kids, if p + 1 \<noteq> 0 then p + 1 else p)))
         else if charAt S (pos + 1) = Some CHR ''!'' then
           (if charAt S (pos + 2) = Some CHR ''-'' then
              (let startCommentPos = pos;
                   p = commentLoop S pos;
                   p' = (if p = - 1 then int (length S) else p);
                   kids' = (if keepComments opts
                            then kids @ [Text (substring S startCommentPos (p' + 1))]
                            else kids)
               in parseChildren n opts S tag (p' + 1) kids')
            else if charAt S (pos + 2) = Some CHR ''['' \<and> charAt S (pos + 8) = Some CHR ''['' \<and>
                    toLowerCase (substring S (pos + 3) (pos + 8)) = ''cdata'' then
              (let cdataEndIndex = indexOf S '']]>'' pos
               in if cdataEndIndex = - 1
                  then parseChildren n opts S tag (int (length S))
                         (kids @ [Text (substringFrom S (pos + 9))])
                  else parseChildren n opts S tag (cdataEndIndex + 3)
                         (kids @ [Text (substring S (pos + 9) cdataEndIndex)]))
            else
              (let startDoctype = pos + 1;
                   p = doctypeLoop S (pos + 2) False
               in parseChildren n opts S tag (p + 1) (kids @ [Text (substring S startDoctype p)])))
         else
           (case parseNode n opts S pos of
              None \<Rightarrow> None
            | Some (Inl e) \<Rightarrow> Some (Inl e)
            | Some (Inr (node, p)) \<Rightarrow>
                if (case tagName node of [] \<Rightarrow> False | c # cs \<Rightarrow> c = CHR ''?'')
                then parseChildren n opts S tag p
                       (kids @ [TNode (tagName node) (attributes node) []] @ children node)
                else parseChildren n opts S tag p (kids @ [node])))
      else
        (let text = fst (parseText S pos);
             p = snd (parseText S pos);
             kids' = (if keepWhitespace opts
                      then (if length text > 0 then kids @ [Text text] else kids)
                      else (let trimmed = trim text
                            in if length trimmed > 0 then kids @ [Text trimmed] else kids))
         in parseChildren n opts S tag (p + 1) kids'))"
| "parseNode 0 opts S pos = None"
| "parseNode (Suc n) opts S pos =
     (let name = fst (parseName S (pos + 1));
          p1 = snd (parseName S (pos + 1));
          atts = fst (parseAttrs S p1 []);
          p2 = fst (snd (parseAttrs S p1 []));
          returned = snd (snd (parseAttrs S p1 []))
      in if returned then Some (Inr (TNode name atts [], p2))
         else if charAt S (p2 - 1) \<noteq> Some CHR ''/'' then
           (if name = ''script'' then
              (let start = p2 + 1;
                   p3 = indexOf S ''</script>'' p2
               in Some (Inr (TNode name atts [Text (slice S start p3)], p3 + 9)))
            else if name = ''style'' then
              (let start = p2 + 1;
                   p3 = indexOf S ''</style>'' p2
               in Some (Inr (TNode name atts [Text (slice S start p3)], p3 + 8)))
            else if name \<notin> set (selfClosingTags opts) then
              (case parseChildren n opts S name (p2 + 1) [] of
                 None \<Rightarrow> None
               | Some (Inl e) \<Rightarrow> Some (Inl e)
               | Some (Inr (kids, p3)) \<Rightarrow> Some (Inr (TNode name atts kids, p3)))
            else Some (Inr (TNode name atts [], p2 + 1)))
         else Some (Inr (TNode name atts [], p2 + 1)))"


section \<open>Tree transforms\<close>

text \<open>
  The values \<open>simplify\<close> builds: strings, \<open>null\<close>, arrays and objects. An object is the list
  of its own properties in insertion order. (The host orders keys that are array indices
  first and lets a fresh object inherit a few names; tag names of those two kinds are outside
  this model.)
\<close>

datatype jsval = JNull | JString string | JArray "jsval list" | JObject "(string \<times> jsval) list"

fun setProp :: "(string \<times> 'v) list \<Rightarrow> string \<Rightarrow> 'v \<Rightarrow> (string \<times> 'v) list" where
  \<comment> \<open>\<open>obj[key] = v\<close>\<close>
  "setProp [] key v = [(key, v)]"
| "setProp ((k, w) # kvs) key v =
     (if k = key then (k, v) # kvs else (k, w) # setProp kvs key v)"

definition attrsObject :: "attrs \<Rightarrow> jsval" where
  "attrsObject atts =
     JObject (map (\<lambda>(k, v). (k, case v of None \<Rightarrow> JNull | Some s \<Rightarrow> JString s)) atts)"

definition pushKid :: "(string \<times> jsval list) list \<Rightarrow> string \<Rightarrow> jsval \<Rightarrow> (string \<times> jsval list) list" where
  \<comment> \<open>\<open>if (!out[tag]) out[tag] = []; out[tag].push(kids)\<close>\<close>
  "pushKid out tag kids =
     (case map_of out tag of
        None \<Rightarrow> out @ [(tag, [kids])]
      | Some vs \<Rightarrow> setProp out tag (vs @ [kids]))"

definition attachAttributes :: "jsval \<Rightarrow> attrs \<Rightarrow> jsval" where
  \<comment> \<open>\<open>if (Object.keys(child.attributes).length && typeof kids === "object" &&
     !Array.isArray(kids)) kids._attributes = child.attributes\<close>\<close>
  "attachAttributes kids atts =
     (case kids of
        JObject props \<Rightarrow>
          if atts \<noteq> [] then JObject (setProp props ''_attributes'' (attrsObject atts)) else kids
      | _ \<Rightarrow> kids)"

definition collapse :: "string \<times> jsval list \<Rightarrow> string \<times> jsval" where
  \<comment> \<open>\<open>if (out[key].length === 1) out[key] = out[key][0]\<close>\<close>
  "collapse kv = (case kv of (key, [v]) \<Rightarrow> (key, v) | (key, vs) \<Rightarrow> (key, JArray vs))"

fun simplify :: "child list \<Rightarrow> jsval"
  and simplifyLoop :: "child list \<Rightarrow> (string \<times> jsval list) list \<Rightarrow> (string \<times> jsval list) list"
where
  "simplify [] = JString []"
| "simplify [Text s] = JString s"
| "simplify [TNode t a k] = JObject (map collapse (simplifyLoop [TNode t a k] []))"
| "simplify (c # d # cs) = JObject (map collapse (simplifyLoop (c # d # cs) []))"
| "simplifyLoop [] out = out"
| "simplifyLoop (Text s # cs) out = simplifyLoop cs out"
| "simplifyLoop (TNode t a k # cs) out =
     simplifyLoop cs (pushKid out t (attachAttributes (simplify k) a))"

fun showDigits :: "nat \<Rightarrow> string" where
  \<comment> \<open>a number in a template string\<close>
  "showDigits n =
     (if n < 10 then [char_of (48 + n)] else showDigits (n div 10) @ [char_of (48 + n mod 10)])"

fun filter_nodes ::
    "child list \<Rightarrow> nat \<Rightarrow> (child \<Rightarrow> nat \<Rightarrow> nat \<Rightarrow> string \<Rightarrow> bool) \<Rightarrow> nat \<Rightarrow> string \<Rightarrow> child list"
where
  \<comment> \<open>\<open>filter\<close>; the second argument is the index \<open>forEach\<close> has reached\<close>
  "filter_nodes [] i f depth path = []"
| "filter_nodes (Text s # cs) i f depth path = filter_nodes cs (Suc i) f depth path"
| "filter_nodes (TNode t a k # cs) i f depth path =
     (if f (TNode t a k) i depth path then [TNode t a k] else []) @
     filter_nodes k 0 f (depth + 1)
       ((if path \<noteq> [] then path @ ''.'' else []) @ showDigits i @ ''.'' @ t) @
     filter_nodes cs (Suc i) f depth path"

fun toContentString :: "child \<Rightarrow> string"
  and toContentStrings :: "child list \<Rightarrow> string"
where
  \<comment> \<open>\<open>toContentString\<close> on a node or string, and on an array\<close>
  "toContentString (Text s) = '' '' @ s"
| "toContentString (TNode t a k) = toContentStrings k"
| "toContentStrings xs = trim (join '' '' (map toContentString xs))"


section \<open>The serializer\<close>

text \<open>
  A regular expression option is the predicate its \<open>test\<close> computes, \<open>None\<close> when the option
  is absent; \<open>indentSpaces\<close> absent is \<open>0\<close>.
\<close>

record stringifyOptions =
  skipTags :: "(string \<Rightarrow> bool) option"
  stripParams :: "(string \<Rightarrow> bool) option"
  compactTags :: "(string \<Rightarrow> bool) option"
  indentSpaces :: nat

definition noOptions :: stringifyOptions where
  "noOptions = \<lparr>skipTags = None, stripParams = None, compactTags = None, indentSpaces = 0\<rparr>"

definition testOpt :: "(string \<Rightarrow> bool) option \<Rightarrow> string \<Rightarrow> bool" where
  \<comment> \<open>\<open>re?.test(name)\<close> as a condition\<close>
  "testOpt re name = (case re of None \<Rightarrow> False | Some t \<Rightarrow> t name)"

fun writeAttrs :: "stringifyOptions \<Rightarrow> attrs \<Rightarrow> string \<Rightarrow> string" where
  \<comment> \<open>the loop \<open>for (const k in node.attributes)\<close>\<close>
  "writeAttrs opts [] out = out"
| "writeAttrs opts ((k, v) # kvs) out =
     (if testOpt (stripParams opts) k then writeAttrs opts kvs out
      else writeAttrs opts kvs
             (out @ (case v of
                       None \<Rightarrow> '' '' @ k
                     | Some w \<Rightarrow>
                         if str_includes w [CHR 0x22]
                         then '' '' @ k @ ''='' @ [CHR 0x27] @ trim w @ [CHR 0x27]
                         else '' '' @ k @ ''='' @ [CHR 0x22] @ trim w @ [CHR 0x22])))"

definition isElement :: "child \<Rightarrow> bool" where
  \<comment> \<open>\<open>typeof c === "object"\<close>\<close>
  "isElement c = (case c of TNode t a k \<Rightarrow> True | Text s \<Rightarrow> False)"

fun write_nodes :: "stringifyOptions \<Rightarrow> string \<Rightarrow> child list \<Rightarrow> nat \<Rightarrow> bool \<Rightarrow> string \<Rightarrow> string" where
  \<comment> \<open>the closure \<open>write\<close>; the last argument is \<open>out\<close> so far, the result is \<open>out\<close> after\<close>
  "write_nodes opts indent [] depth compact out = out"
| "write_nodes opts indent (Text s # nodes) depth compact out =
     (let t = trim s
      in write_nodes opts indent nodes depth compact
           (if t \<noteq> []
            then out @ (if \<not> compact \<and> indent \<noteq> [] then [CHR 0x0A] @ repeat indent depth @ t else t)
            else out))"
| "write_nodes opts indent (TNode tag atts kids # nodes) depth compact out =
     (if testOpt (skipTags opts) tag then write_nodes opts indent nodes depth compact out
      else
        (let isCompact = (compact \<or> testOpt (compactTags opts) tag);
             out1 = (if \<not> compact \<and> indent \<noteq> [] then out @ [CHR 0x0A] @ repeat indent depth
                     else out);
             out2 = writeAttrs opts atts (out1 @ ''<'' @ tag)
         in if (case tag of [] \<Rightarrow> False | c # cs \<Rightarrow> c = CHR ''?'')
            then write_nodes opts indent nodes depth compact (out2 @ ''?>'')
            else
              (let hasEl = list_ex isElement kids;
                   out3 = write_nodes opts indent kids (depth + 1) isCompact (out2 @ ''>'');
                   out4 = (if \<not> isCompact \<and> indent \<noteq> [] \<and> hasEl
                           then out3 @ [CHR 0x0A] @ repeat indent depth else out3)
               in write_nodes opts indent nodes depth compact (out4 @ ''</'' @ tag @ ''>''))))"

definition stringify :: "stringifyOptions \<Rightarrow> child list \<Rightarrow> string" where
  \<comment> \<open>\<open>stringify\<close> on an array; a single node \<open>O\<close> is the array \<open>[O]\<close>\<close>
  "stringify opts nodes =
     (let indent = (if indentSpaces opts > 0 then repeat '' '' (indentSpaces opts) else []);
          out = write_nodes opts indent nodes 0 False []
      in case out of
           c # cs \<Rightarrow> if c = CHR 0x0A then cs else out
         | [] \<Rightarrow> out)"

section \<open>The entry point\<close>

text \<open>
  The remaining options of \<open>parse\<close>. The regular expression of the attribute search belongs
  to the host; \<open>parse\<close> takes its \<open>exec\<close> as the first argument after the bound: \<open>rx name value S\<close>
  is the index of the first match in \<open>S\<close> of the expression built from \<open>name\<close> and \<open>value\<close>,
  or \<open>-1\<close>.
\<close>

record parseOptions = scanOptions +
  optPos :: int
  optSetPos :: bool
  optSimplify :: bool
  optParseNode :: bool
  optAttrName :: "string option"
  optAttrValue :: "string option"
  optFilter :: "(child \<Rightarrow> nat \<Rightarrow> nat \<Rightarrow> string \<Rightarrow> bool) option"

definition defaultOptions :: parseOptions where
  "defaultOptions =
     \<lparr>keepComments = False, keepWhitespace = False, selfClosingTags = DEFAULT_SELF_CLOSING,
      optPos = 0, optSetPos = False, optSimplify = False, optParseNode = False,
      optAttrName = None, optAttrValue = None, optFilter = None\<rparr>"

definition scanOf :: "parseOptions \<Rightarrow> scanOptions" where
  "scanOf opts =
     \<lparr>keepComments = keepComments opts, keepWhitespace = keepWhitespace opts,
      selfClosingTags = selfClosingTags opts\<rparr>"

datatype parseResult =
    Nodes "child list"
  | Node child "int option"
  | Simplified jsval

definition findElements :: "(string \<Rightarrow> string \<Rightarrow> string \<Rightarrow> int) \<Rightarrow> string option \<Rightarrow> string option \<Rightarrow> string \<Rightarrow> int" where
  \<comment> \<open>an empty name or value is falsy\<close>
  "findElements rx name val S =
     (case (name, val) of
        (Some a, Some v) \<Rightarrow> if a = [] \<or> v = [] then - 1 else rx a v S
      | _ \<Rightarrow> - 1)"

fun attrSearch ::
    "nat \<Rightarrow> (string \<Rightarrow> int) \<Rightarrow> scanOptions \<Rightarrow> string \<Rightarrow> child list \<Rightarrow> (error + child list) option"
where
  \<comment> \<open>the loop \<open>while ((pos = findElements()) !== -1)\<close>, which replaces \<open>S\<close> each time round\<close>
  "attrSearch 0 findEl opts S out = None"
| "attrSearch (Suc n) findEl opts S out =
     (let pos = findEl S
      in if pos = - 1 then Some (Inr out)
         else
           (let p = lastIndexOf S CHR ''<'' pos
            in if p \<noteq> - 1
               then (case parseNode n opts S p of
                       None \<Rightarrow> None
                     | Some (Inl e) \<Rightarrow> Some (Inl e)
                     | Some (Inr (node, p')) \<Rightarrow>
                         attrSearch n findEl opts (substringFrom S p') (out @ [node]))
               else attrSearch n findEl opts (substringFrom S p) out))"

definition finish :: "parseOptions \<Rightarrow> child list \<Rightarrow> parseResult" where
  \<comment> \<open>what \<open>parse\<close> does with an array \<open>out\<close>\<close>
  "finish opts out =
     (let out' = (case optFilter opts of None \<Rightarrow> out | Some f \<Rightarrow> filter_nodes out 0 f 0 [])
      in if optSimplify opts then Simplified (simplify out') else Nodes out')"

definition parse ::
    "nat \<Rightarrow> (string \<Rightarrow> string \<Rightarrow> string \<Rightarrow> int) \<Rightarrow> parseOptions \<Rightarrow> string \<Rightarrow> (error + parseResult) option"
where
  "parse n rx opts S =
     (if optAttrValue opts \<noteq> None then
        (let name = (case optAttrName opts of
                       None \<Rightarrow> Some ''id''
                     | Some a \<Rightarrow> if a = [] then Some ''id'' else Some a)
         in case attrSearch n (findElements rx name (optAttrValue opts)) (scanOf opts) S [] of
              None \<Rightarrow> None
            | Some (Inl e) \<Rightarrow> Some (Inl e)
            | Some (Inr out) \<Rightarrow> Some (Inr (finish opts out)))
      else if optParseNode opts then
        (case parseNode n (scanOf opts) S (optPos opts) of
           None \<Rightarrow> None
         | Some (Inl e) \<Rightarrow> Some (Inl e)
         | Some (Inr (node, p)) \<Rightarrow>
             if optSimplify opts then Some (Inr (Simplified (simplify [node])))
             else Some (Inr (Node node (if optSetPos opts then Some p else None))))
      else
        (case parseChildren n (scanOf opts) S [] (optPos opts) [] of
           None \<Rightarrow> None
         | Some (Inl e) \<Rightarrow> Some (Inl e)
         | Some (Inr (out, p)) \<Rightarrow> Some (Inr (finish opts out))))"


section \<open>The streaming adapters\<close>

text \<open>
  \<open>transformStream\<close> and \<open>transformWebStream\<close> keep \<open>data\<close> and \<open>position\<close> between chunks
  and run the same loop on each chunk; they differ in how an item leaves (\<open>this.push\<close>,
  \<open>controller.enqueue\<close>), which is the list of items here, and neither has a handler for the
  end of the stream. The parser options passed through are the scanner's; the call
  \<open>parse(data, {..., pos: position - 1, parseNode: true, setPos: true})\<close> is \<open>parseNode\<close> at
  \<open>position - 1\<close> together with the cursor it leaves.
\<close>

record streamState =
  data :: string
  position :: int

fun transformLoop ::
    "nat \<Rightarrow> scanOptions \<Rightarrow> string \<Rightarrow> int \<Rightarrow> int \<Rightarrow> child list \<Rightarrow> (error + child list \<times> streamState) option"
where
  \<comment> \<open>\<open>while (true)\<close> in \<open>transform\<close>, after \<open>data += chunk\<close>; arguments \<open>data\<close>, \<open>position\<close>,
     \<open>lastPos\<close> and the items pushed so far\<close>
  "transformLoop 0 opts dat pos lastPos items = None"
| "transformLoop (Suc n) opts dat pos lastPos items =
     (let pos1 = indexOf dat ''<'' pos + 1
      in if pos1 = 0 then Some (Inr (items, \<lparr>data = dat, position = lastPos\<rparr>))
         else if charAt dat pos1 = Some CHR ''/''
         then transformLoop n opts dat (pos1 + 1) (pos1 + 1) items
         else if charAt dat pos1 = Some CHR ''!'' \<and> charAt dat (pos1 + 1) = Some CHR ''-'' \<and>
                 charAt dat (pos1 + 2) = Some CHR ''-''
         then
           (let commentEnd = indexOf dat ''-->'' (pos1 + 3)
            in if commentEnd = - 1
               then Some (Inr (items, \<lparr>data = sliceFrom dat lastPos, position = 0\<rparr>))
               else transformLoop n opts dat (commentEnd + 1) commentEnd
                      (if keepComments opts
                       then items @ [Text (substring dat (pos1 - 1) (commentEnd + 3))]
                       else items))
         else
           (case parseNode n opts dat (pos1 - 1) of
              None \<Rightarrow> None
            | Some (Inl e) \<Rightarrow> Some (Inl e)
            | Some (Inr (res, p)) \<Rightarrow>
                if p > int (length dat) - 1 \<or> p < lastPos
                then Some (Inr (items, \<lparr>data = sliceFrom dat lastPos, position = 0\<rparr>))
                else transformLoop n opts dat p p (items @ [res])))"

definition transform :: "nat \<Rightarrow> scanOptions \<Rightarrow> streamState \<Rightarrow> string \<Rightarrow> (error + child list \<times> streamState) option" where
  \<comment> \<open>one call of \<open>transform(chunk)\<close>: the items it pushes and the state it leaves\<close>
  "transform n opts st chunk = transformLoop n opts (data st @ chunk) (position st) 0 []"

fun runStream ::
    "nat \<Rightarrow> scanOptions \<Rightarrow> streamState \<Rightarrow> string list \<Rightarrow> (error + child list) option"
where
  \<comment> \<open>the items a stream of chunks produces, up to its end\<close>
  "runStream n opts st [] = Some (Inr [])"
| "runStream n opts st (chunk # chunks) =
     (case transform n opts st chunk of
        None \<Rightarrow> None
      | Some (Inl e) \<Rightarrow> Some (Inl e)
      | Some (Inr (items, st')) \<Rightarrow>
          (case runStream n opts st' chunks of
             None \<Rightarrow> None
           | Some (Inl e) \<Rightarrow> Some (Inl e)
           | Some (Inr later) \<Rightarrow> Some (Inr (items @ later))))"

definition transformStream :: "nat \<Rightarrow> int \<Rightarrow> scanOptions \<Rightarrow> string list \<Rightarrow> (error + child list) option" where
  \<comment> \<open>\<open>transformStream(offset, parseOptions)\<close> fed the chunks\<close>
  "transformStream n offset opts chunks = runStream n opts \<lparr>data = [], position = offset\<rparr> chunks"

definition transformWebStream :: "nat \<Rightarrow> int \<Rightarrow> scanOptions \<Rightarrow> string list \<Rightarrow> (error + child list) option" where
  \<comment> \<open>\<open>transformWebStream(offset, parseOptions)\<close> fed the chunks\<close>
  "transformWebStream n offset opts chunks = runStream n opts \<lparr>data = [], position = offset\<rparr> chunks"


section \<open>Notions used in the statements\<close>










text \<open>
  \<open>nameChars nm\<close>: no character of \<open>nm\<close> ends a name. \<open>attrName nm\<close>: \<open>nm\<close> can be read as an
  attribute name, that is, it starts with a letter and goes on with such characters.
\<close>

definition nameChars :: "string \<Rightarrow> bool" where
  "nameChars nm = list_all (\<lambda>c. c \<notin> set NAME_END_CHARS) nm"

definition attrName :: "string \<Rightarrow> bool" where
  "attrName nm = (case nm of [] \<Rightarrow> False | c # cs \<Rightarrow> isLetter c \<and> nameChars cs)"

definition isQuote :: "char \<Rightarrow> bool" where
  "isQuote q = (q = CHR 0x27 \<or> q = CHR 0x22)"

text \<open>
  \<open>firstOccurrence pat xs\<close>: in \<open>xs\<close> followed by \<open>pat\<close>, the pattern does not occur before the end
  of \<open>xs\<close>.
\<close>

definition firstOccurrence :: "string \<Rightarrow> string \<Rightarrow> bool" where
  "firstOccurrence pat xs = list_all (\<lambda>i. \<not> prefix pat (drop i (xs @ pat))) [0..<length xs]"

text \<open>
  The words of the description of \<open>simplify\<close>: \<open>tagNames cs\<close> are the tag names of the element
  children, each once, in the order of their first occurrence; \<open>sameNamed t cs\<close> are the element
  children named \<open>t\<close>, in order; \<open>simplified e\<close> is the result for the children of the element
  \<open>e\<close>, with the attributes of \<open>e\<close> attached when it is an object and \<open>e\<close> has attributes;
  \<open>collapseValues\<close> turns a list of one value into that value and any other list into an array.
\<close>

fun tagNames :: "child list \<Rightarrow> string list" where
  "tagNames [] = []"
| "tagNames (Text s # cs) = tagNames cs"
| "tagNames (TNode t a k # cs) = t # filter (\<lambda>x. x \<noteq> t) (tagNames cs)"




text \<open>
  Documents written out in full. \<open>render t\<close> is the text of the tree \<open>t\<close>: a text leaf as it
  is; an element as its open tag, the texts of its children and its close tag \<open></name>\<close>. An
  attribute without a value is written as its name, one with a value as \<open>name=\<close> and the value
  between two quotes, the double quote unless the value has one in it (\<open>quoteFor\<close>).
\<close>

definition quoteFor :: "string \<Rightarrow> char" where
  "quoteFor v = (if CHR 0x22 \<in> set v then CHR 0x27 else CHR 0x22)"

definition renderAttr :: "string \<times> string option \<Rightarrow> string" where
  "renderAttr kv =
     (case kv of
        (k, None) \<Rightarrow> k
      | (k, Some v) \<Rightarrow> k @ ''='' @ [quoteFor v] @ v @ [quoteFor v])"

definition renderAttrs :: "attrs \<Rightarrow> string" where
  "renderAttrs a = concat (map (\<lambda>kv. '' '' @ renderAttr kv) a)"

fun render :: "child \<Rightarrow> string" where
  "render (Text s) = s"
| "render (TNode t a k) =
     ''<'' @ t @ renderAttrs a @ ''>'' @ concat (map render k) @ ''</'' @ t @ ''>''"

text \<open>
  \<open>canonical sc t\<close>: the tree \<open>t\<close> is one that the text \<open>render t\<close> determines. Element names
  are made of name characters, do not start with \<open>!\<close> or \<open>?\<close>, and are none of \<open>script\<close>,
  \<open>style\<close> and the self-closing names \<open>sc\<close>. Attribute names can be read as attribute names
  and are distinct within an element; a value has no white space at either end and does not
  hold both kinds of quote. A text leaf is not empty, has no white space at either end and no
  \<open><\<close>, and no two text leaves are neighbours.
\<close>

definition attrOk :: "string \<times> string option \<Rightarrow> bool" where
  "attrOk kv =
     (attrName (fst kv) \<and>
      (case snd kv of
         None \<Rightarrow> True
       | Some v \<Rightarrow> trim v = v \<and> \<not> (CHR 0x22 \<in> set v \<and> CHR 0x27 \<in> set v)))"

definition tagOk :: "string list \<Rightarrow> string \<Rightarrow> bool" where
  "tagOk sc t =
     (nameChars t \<and>
      (case t of [] \<Rightarrow> False | c # cs \<Rightarrow> c \<noteq> CHR ''!'' \<and> c \<noteq> CHR ''?'') \<and>
      t \<noteq> ''script'' \<and> t \<noteq> ''style'' \<and> t \<notin> set sc)"

definition textOk :: "string \<Rightarrow> bool" where
  "textOk s = (s \<noteq> [] \<and> trim s = s \<and> CHR ''<'' \<notin> set s)"

fun noAdjacentText :: "child list \<Rightarrow> bool" where
  "noAdjacentText (Text s # Text s' # cs) = False"
| "noAdjacentText (c # cs) = noAdjacentText cs"
| "noAdjacentText [] = True"

fun canonical :: "string list \<Rightarrow> child \<Rightarrow> bool" where
  "canonical sc (Text s) = textOk s"
| "canonical sc (TNode t a k) =
     (tagOk sc t \<and> distinct (map fst a) \<and> list_all attrOk a \<and>
      list_all (canonical sc) k \<and> noAdjacentText k)"

text \<open>
  \<open>scanSteps t\<close> bounds the iterations the scanner spends on \<open>render t\<close>. \<open>setAll atts a\<close> stores
  the pairs of \<open>a\<close> in \<open>atts\<close> one after the other, as the attribute loop does.
\<close>

fun scanSteps :: "child \<Rightarrow> nat" where
  "scanSteps (Text s) = 1"
| "scanSteps (TNode t a k) = 2 + sum_list (map scanSteps k)"

definition setAll :: "attrs \<Rightarrow> attrs \<Rightarrow> attrs" where
  "setAll atts a = foldl (\<lambda>acc kv. setAttr acc (fst kv) (snd kv)) atts a"

section \<open>Facts about the host primitives and the scanner\<close>


lemma charAt_at: "charAt (pre @ c # rest) (int (length pre)) = Some c"
  by (simp add: charAt_def)

lemma charAt_at_add:
  "i \<ge> 0 \<Longrightarrow> charAt (pre @ T) (int (length pre) + i) = charAt T i"
  by (auto simp: charAt_def nth_append nat_add_distrib)

lemma charAt_end: "charAt S (int (length S)) = None"
  by (simp add: charAt_def)

lemma indexFrom_char:
  "indexFrom [c] xs k = (if c \<in> set xs then int k + int (length (takeWhile (\<lambda>x. x \<noteq> c) xs)) else - 1)"
  by (induction xs arbitrary: k) auto

lemma indexFrom_shift: "indexFrom pat xs k = (if indexFrom pat xs 0 = - 1 then - 1 else int k + indexFrom pat xs 0)"
proof (induction xs arbitrary: k)
  case Nil
  then show ?case by simp
next
  case (Cons x xs)
  from Cons [of "Suc k"] Cons [of "Suc 0"] indexFrom_found [of pat xs 0] show ?case by auto
qed

lemma clampPos_in: "0 \<le> i \<Longrightarrow> i \<le> int (length S) \<Longrightarrow> clampPos S i = nat i"
  by (simp add: clampPos_def)

lemma indexOf_drop:
  assumes "0 \<le> i" and "i \<le> int (length S)"
  shows "indexOf S pat i =
     (if indexFrom pat (drop (nat i) S) 0 = - 1 then - 1
      else i + indexFrom pat (drop (nat i) S) 0)"
proof -
  from assms have "clampPos S i = nat i" by (simp add: clampPos_in)
  then have "indexOf S pat i = indexFrom pat (drop (nat i) S) (nat i)"
    by (simp add: indexOf_unfold)
  also have "\<dots> = (if indexFrom pat (drop (nat i) S) 0 = - 1 then - 1
      else int (nat i) + indexFrom pat (drop (nat i) S) 0)"
    by (rule indexFrom_shift)
  finally show ?thesis using assms by simp
qed

lemma indexOf_at:
  assumes "0 \<le> i" and "i \<le> int (length T)"
  shows "indexOf (pre @ T) pat (int (length pre) + i) =
     (if indexOf T pat i = - 1 then - 1 else int (length pre) + indexOf T pat i)"
proof -
  have "nat (int (length pre) + i) = length pre + nat i" using assms by (simp add: nat_add_distrib)
  then show ?thesis
    using assms indexOf_drop [of "int (length pre) + i" "pre @ T" pat] indexOf_drop [of i T pat]
      indexFrom_found [of pat "drop (nat i) T" 0]
    by auto
qed

lemma charAt_Cons:
  "charAt (c # cs) i = (if i = 0 then Some c else if 0 < i then charAt cs (i - 1) else None)"
  by (auto simp: charAt_def nat_diff_distrib nth_Cons')

lemma charAt_Nil: "charAt [] i = None"
  by (simp add: charAt_def)

lemma charAt_at1: "charAt (pre @ a # c # rest) (int (length pre) + 1) = Some c"
  using charAt_at_add [of 1 pre "a # c # rest"] by (simp add: charAt_Cons)


lemma slice_mid: "slice (pre @ xs @ rest) (int (length pre)) (int (length pre) + int (length xs)) = xs"
  by (simp add: slice_def sliceIndex_def Let_def nat_add_distrib)

lemma substring_slice: "0 \<le> a \<Longrightarrow> a \<le> b \<Longrightarrow> substring S a b = slice S a b"
  by (auto simp: substring_def slice_def sliceIndex_def clampPos_def Let_def min_def max_def)

lemma substring_mid:
  "substring (pre @ xs @ rest) (int (length pre)) (int (length pre) + int (length xs)) = xs"
  by (simp add: substring_slice slice_mid)



lemma pc_end:
  "charAt S pos = None \<Longrightarrow> parseChildren (Suc n) opts S tag pos kids = Some (Inr (kids, pos))"
  by simp

lemma pc_close:
  assumes "charAt S pos = Some CHR ''<''" and "charAt S (pos + 1) = Some CHR ''/''"
  shows "parseChildren (Suc n) opts S tag pos kids =
     (if \<not> str_includes (substring S (pos + 2) (indexOf S ''>'' pos)) tag
      then Some (Inl (unexpectedCloseTag S (indexOf S ''>'' pos)))
      else Some (Inr (kids, if indexOf S ''>'' pos + 1 \<noteq> 0 then indexOf S ''>'' pos + 1
                            else indexOf S ''>'' pos)))"
  using assms by (simp add: Let_def)




lemma pc_node:
  assumes "charAt S pos = Some CHR ''<''" and "charAt S (pos + 1) \<noteq> Some CHR ''/''"
    and "charAt S (pos + 1) \<noteq> Some CHR ''!''"
  shows "parseChildren (Suc n) opts S tag pos kids =
     (case parseNode n opts S pos of
        None \<Rightarrow> None
      | Some (Inl e) \<Rightarrow> Some (Inl e)
      | Some (Inr (node, p)) \<Rightarrow>
          if (case tagName node of [] \<Rightarrow> False | c # cs \<Rightarrow> c = CHR ''?'')
          then parseChildren n opts S tag p
                 (kids @ [TNode (tagName node) (attributes node) []] @ children node)
          else parseChildren n opts S tag p (kids @ [node]))"
  using assms by simp

lemma pc_text:
  assumes "charAt S pos = Some c" and "c \<noteq> CHR ''<''"
  shows "parseChildren (Suc n) opts S tag pos kids =
     parseChildren n opts S tag (snd (parseText S pos) + 1)
       (if keepWhitespace opts
        then (if fst (parseText S pos) \<noteq> [] then kids @ [Text (fst (parseText S pos))] else kids)
        else (if trim (fst (parseText S pos)) \<noteq> []
              then kids @ [Text (trim (fst (parseText S pos)))] else kids))"
  using assms by (simp add: Let_def)

lemma pn_unfold:
  "parseNode (Suc n) opts S pos =
     (let name = fst (parseName S (pos + 1));
          p1 = snd (parseName S (pos + 1));
          atts = fst (parseAttrs S p1 []);
          p2 = fst (snd (parseAttrs S p1 []));
          returned = snd (snd (parseAttrs S p1 []))
      in if returned then Some (Inr (TNode name atts [], p2))
         else if charAt S (p2 - 1) \<noteq> Some CHR ''/'' then
           (if name = ''script'' then
              Some (Inr (TNode name atts [Text (slice S (p2 + 1) (indexOf S ''</script>'' p2))],
                         indexOf S ''</script>'' p2 + 9))
            else if name = ''style'' then
              Some (Inr (TNode name atts [Text (slice S (p2 + 1) (indexOf S ''</style>'' p2))],
                         indexOf S ''</style>'' p2 + 8))
            else if name \<notin> set (selfClosingTags opts) then
              (case parseChildren n opts S name (p2 + 1) [] of
                 None \<Rightarrow> None
               | Some (Inl e) \<Rightarrow> Some (Inl e)
               | Some (Inr (kids, p3)) \<Rightarrow> Some (Inr (TNode name atts kids, p3)))
            else Some (Inr (TNode name atts [], p2 + 1)))
         else Some (Inr (TNode name atts [], p2 + 1)))"
  by (simp add: Let_def)

declare parseChildren.simps [simp del] parseNode.simps [simp del]









lemma indexFrom_prefix_drop:
  "prefix pat (drop j xs) \<Longrightarrow> j \<le> length xs \<Longrightarrow> indexFrom pat xs k \<noteq> - 1"
proof (induction xs arbitrary: j k)
  case Nil
  then show ?case by simp
next
  case (Cons x xs)
  show ?case
  proof (cases j)
    case 0
    with Cons.prems show ?thesis by simp
  next
    case (Suc j')
    with Cons.prems Cons.IH [of j' "Suc k"] show ?thesis
      using indexFrom_found [of pat xs "Suc k"] by auto
  qed
qed

lemma includes_prefix_drop:
  "prefix pat (drop j T) \<Longrightarrow> j \<le> length T \<Longrightarrow> str_includes T pat"
  using indexFrom_prefix_drop [of pat j T 0]
  by (simp add: str_includes_def indexOf_unfold clampPos_def)






lemma charAt_beyond: "int (length S) \<le> i \<Longrightarrow> charAt S i = None"
  by (simp add: charAt_def)


lemma indexOf_none:
  assumes "\<not> str_includes T pat"
  shows "indexOf (pre @ T) pat (int (length pre)) = - 1"
  using assms indexOf_at [of 0 T pre pat] by (simp add: str_includes_def)










lemma indexFrom_prefix:
  "indexFrom pat xs k \<noteq> - 1 \<Longrightarrow> prefix pat (drop (nat (indexFrom pat xs k) - k) xs)"
proof (induction xs arbitrary: k)
  case Nil
  then show ?case by (simp split: if_splits)
next
  case (Cons x xs)
  show ?case
  proof (cases "prefix pat (x # xs)")
    case True
    then show ?thesis by simp
  next
    case False
    with Cons.prems have ne: "indexFrom pat xs (Suc k) \<noteq> - 1" by simp
    from indexFrom_found [OF ne] have "int (Suc k) \<le> indexFrom pat xs (Suc k)" by simp
    then have "nat (indexFrom pat xs (Suc k)) - k = Suc (nat (indexFrom pat xs (Suc k)) - Suc k)"
      by linarith
    with Cons.IH [OF ne] False show ?thesis by simp
  qed
qed




lemma parseNameLoop_stop:
  assumes "nameChars nm" and "rest = [] \<or> hd rest \<in> set NAME_END_CHARS"
  shows "parseNameLoop (pre @ nm @ rest) (int (length pre)) = int (length pre) + int (length nm)"
  using assms
proof (induction nm arbitrary: pre)
  case Nil
  show ?case
  proof (cases rest)
    case Nil
    then show ?thesis by (simp add: parseNameLoop.simps [of _ "int (length pre)"] charAt_beyond)
  next
    case (Cons c cs)
    with Nil.prems show ?thesis
      by (simp add: parseNameLoop.simps [of _ "int (length pre)"] charAt_at)
  qed
next
  case (Cons c cs)
  from Cons.prems have a: "nameChars cs" and c: "c \<notin> set NAME_END_CHARS"
    by (simp_all add: nameChars_def)
  from Cons.IH [OF a Cons.prems(2), of "pre @ [c]"] c show ?case
    by (simp add: parseNameLoop.simps [of _ "int (length pre)"] charAt_at ac_simps)
qed

lemma parseName_stop:
  assumes "nameChars nm" and "rest = [] \<or> hd rest \<in> set NAME_END_CHARS"
  shows "parseName (pre @ nm @ rest) (int (length pre)) = (nm, int (length pre) + int (length nm))"
  using parseNameLoop_stop [OF assms, of pre] slice_mid [of pre nm rest]
  by (simp add: parseName_def Let_def)

lemma attrName_nameChars: "attrName nm \<Longrightarrow> nameChars nm"
  by (auto simp: attrName_def nameChars_def isLetter_not_name_end split: list.splits)

lemma attrName_letter: "attrName nm \<Longrightarrow> \<exists>c cs. nm = c # cs \<and> isLetter c"
  by (auto simp: attrName_def split: list.splits)

lemma parseString_quoted:
  assumes "q \<notin> set v"
  shows "parseString (pre @ q # v @ q # rest) (int (length pre)) = (v, int (length pre) + 1 + int (length v))"
proof -
  define S where "S = pre @ q # v @ q # rest"
  have c: "charAt S (int (length pre)) = Some q" by (simp add: S_def charAt_at)
  from assms have "takeWhile (\<lambda>x. x \<noteq> q) v = v" by (auto simp: takeWhile_eq_all_conv)
  with assms have "indexOf (v @ q # rest) [q] 0 = int (length v)"
    by (simp add: indexOf_unfold clampPos_def indexFrom_char takeWhile_append2 takeWhile_tail)
  with indexOf_at [of 0 "v @ q # rest" "pre @ [q]" "[q]"]
  have i: "indexOf S [q] (int (length pre) + 1) = int (length pre) + 1 + int (length v)"
    by (simp add: S_def ac_simps)
  have s: "slice S (int (length pre) + 1) (int (length pre) + 1 + int (length v)) = v"
    using slice_mid [of "pre @ [q]" v "q # rest"] by (simp add: S_def ac_simps)
  show ?thesis
    unfolding S_def [symmetric] by (simp add: parseString_def Let_def c i s)
qed

lemma skipToQuote_stop:
  "c = CHR 0x00 \<or> c = CHR 0x27 \<or> c = CHR 0x22 \<or> isLetter c \<or> c = CHR ''>'' \<Longrightarrow>
   skipToQuote (pre @ c # rest) (int (length pre)) = int (length pre)"
  by (subst skipToQuote.simps) (simp add: charAt_at)

lemma skipToQuote_skip:
  "\<not> (c = CHR 0x00 \<or> c = CHR 0x27 \<or> c = CHR 0x22 \<or> isLetter c \<or> c = CHR ''>'') \<Longrightarrow>
   skipToQuote (pre @ c # rest) (int (length pre)) = skipToQuote (pre @ c # rest) (int (length pre) + 1)"
  by (subst skipToQuote.simps) (simp add: charAt_at)

lemma pa_end: "charAt S pos = None \<Longrightarrow> parseAttrs S pos atts = (atts, pos, False)"
  by (subst parseAttrs.simps) simp

lemma pa_gt: "charAt S pos = Some CHR ''>'' \<Longrightarrow> parseAttrs S pos atts = (atts, pos, False)"
  by (subst parseAttrs.simps) simp

lemma pa_skip:
  "charAt S pos = Some c \<Longrightarrow> c \<noteq> CHR ''>'' \<Longrightarrow> \<not> isLetter c \<Longrightarrow>
   parseAttrs S pos atts = parseAttrs S (pos + 1) atts"
  by (subst parseAttrs.simps) simp

lemma pa_quoted:
  assumes "charAt S pos = Some c" and "isLetter c" and "parseName S pos = (name, p1)"
    and "skipToQuote S p1 = p2" and "charAt S p2 = Some q" and "isQuote q"
    and "parseString S p2 = (v, p3)" and "p3 \<noteq> - 1"
  shows "parseAttrs S pos atts = parseAttrs S (p3 + 1) (setAttr atts name (Some v))"
proof -
  from assms(2) have "c \<noteq> CHR ''>''" by (auto simp: isLetter_def Let_def)
  with assms show ?thesis
    by (subst parseAttrs.simps) (auto simp: Let_def isQuote_def)
qed

lemma pa_unclosed:
  assumes "charAt S pos = Some c" and "isLetter c" and "parseName S pos = (name, p1)"
    and "skipToQuote S p1 = p2" and "charAt S p2 = Some q" and "isQuote q"
    and "parseString S p2 = (v, - 1)"
  shows "parseAttrs S pos atts = (atts, - 1, True)"
proof -
  from assms(2) have "c \<noteq> CHR ''>''" by (auto simp: isLetter_def Let_def)
  with assms show ?thesis
    by (subst parseAttrs.simps) (auto simp: Let_def isQuote_def)
qed

lemma pa_flag:
  assumes "charAt S pos = Some c" and "isLetter c" and "parseName S pos = (name, p1)"
    and "skipToQuote S p1 = p2" and "\<not> (\<exists>q. charAt S p2 = Some q \<and> isQuote q)"
  shows "parseAttrs S pos atts = parseAttrs S p2 (setAttr atts name None)"
proof -
  from assms(2) have "c \<noteq> CHR ''>''" by (auto simp: isLetter_def Let_def)
  with assms show ?thesis
    by (subst parseAttrs.simps) (auto simp: Let_def isQuote_def)
qed

lemma isLetter_not_quote: "isLetter c \<Longrightarrow> \<not> isQuote c"
  by (auto simp: isLetter_def isQuote_def Let_def)

lemma attr_quoted:
  assumes "attrName name" and "isQuote q" and "q \<notin> set v"
  shows "parseAttrs (pre @ name @ ''='' @ q # v @ q # rest) (int (length pre)) atts =
     parseAttrs (pre @ name @ ''='' @ q # v @ q # rest)
       (int (length pre) + int (length name) + int (length v) + 3) (setAttr atts name (Some v))"
proof -
  define S where "S = pre @ name @ ''='' @ q # v @ q # rest"
  define P where "P = int (length pre)"
  from attrName_letter [OF assms(1)] obtain c cs where n: "name = c # cs" and l: "isLetter c" by blast
  have c0: "charAt S P = Some c" by (simp add: S_def P_def n charAt_at)
  have pn: "parseName S P = (name, P + int (length name))"
    using parseName_stop [OF attrName_nameChars [OF assms(1)], of "''='' @ q # v @ q # rest" pre]
    by (simp add: S_def P_def NAME_END_CHARS_def)
  have "skipToQuote S (P + int (length name)) = skipToQuote S (P + int (length name) + 1)"
    using skipToQuote_skip [of "CHR ''=''" "pre @ name" "q # v @ q # rest"]
    by (simp add: S_def P_def isLetter_def Let_def)
  also have "\<dots> = P + int (length name) + 1"
    using skipToQuote_stop [of q "pre @ name @ ''=''" "v @ q # rest"] assms(2)
    by (auto simp: S_def P_def isQuote_def ac_simps)
  finally have sk: "skipToQuote S (P + int (length name)) = P + int (length name) + 1" .
  have cq: "charAt S (P + int (length name) + 1) = Some q"
    using charAt_at [of "pre @ name @ ''=''" q "v @ q # rest"] by (simp add: S_def P_def ac_simps)
  have ps: "parseString S (P + int (length name) + 1) = (v, P + int (length name) + 1 + 1 + int (length v))"
    using parseString_quoted [OF assms(3), of "pre @ name @ ''=''" rest] by (simp add: S_def P_def ac_simps)
  have "P + int (length name) + 1 + 1 + int (length v) \<noteq> - 1" by (simp add: P_def)
  from pa_quoted [OF c0 l pn sk cq assms(2) ps this, of atts]
  show ?thesis by (simp add: S_def P_def ac_simps)
qed

lemma attr_flag_end:
  assumes "attrName name"
  shows "parseAttrs (pre @ name @ ''>'' @ rest) (int (length pre)) atts =
     (setAttr atts name None, int (length pre) + int (length name), False)"
proof -
  define S where "S = pre @ name @ ''>'' @ rest"
  define P where "P = int (length pre)"
  from attrName_letter [OF assms(1)] obtain c cs where n: "name = c # cs" and l: "isLetter c" by blast
  have c0: "charAt S P = Some c" by (simp add: S_def P_def n charAt_at)
  have pn: "parseName S P = (name, P + int (length name))"
    using parseName_stop [OF attrName_nameChars [OF assms(1)], of "''>'' @ rest" pre]
    by (simp add: S_def P_def NAME_END_CHARS_def)
  have sk: "skipToQuote S (P + int (length name)) = P + int (length name)"
    using skipToQuote_stop [of "CHR ''>''" "pre @ name" rest] by (simp add: S_def P_def)
  have cq: "charAt S (P + int (length name)) = Some CHR ''>''"
    using charAt_at [of "pre @ name" "CHR ''>''" rest] by (simp add: S_def P_def)
  then have nq: "\<not> (\<exists>q. charAt S (P + int (length name)) = Some q \<and> isQuote q)"
    by (simp add: isQuote_def)
  from pa_flag [OF c0 l pn sk nq, of atts] pa_gt [OF cq]
  show ?thesis by (simp add: S_def P_def)
qed

lemma attr_flag_next:
  assumes "attrName name" and "isLetter l"
  shows "parseAttrs (pre @ name @ '' '' @ l # rest) (int (length pre)) atts =
     parseAttrs (pre @ name @ '' '' @ l # rest) (int (length pre) + int (length name) + 1)
       (setAttr atts name None)"
proof -
  define S where "S = pre @ name @ '' '' @ l # rest"
  define P where "P = int (length pre)"
  from attrName_letter [OF assms(1)] obtain c cs where n: "name = c # cs" and l: "isLetter c" by blast
  have c0: "charAt S P = Some c" by (simp add: S_def P_def n charAt_at)
  have pn: "parseName S P = (name, P + int (length name))"
    using parseName_stop [OF attrName_nameChars [OF assms(1)], of "'' '' @ l # rest" pre]
    by (simp add: S_def P_def NAME_END_CHARS_def)
  have "skipToQuote S (P + int (length name)) = skipToQuote S (P + int (length name) + 1)"
    using skipToQuote_skip [of "CHR '' ''" "pre @ name" "l # rest"]
    by (simp add: S_def P_def isLetter_def Let_def)
  also have "\<dots> = P + int (length name) + 1"
    using skipToQuote_stop [of l "pre @ name @ '' ''" rest] assms(2)
    by (auto simp: S_def P_def ac_simps)
  finally have sk: "skipToQuote S (P + int (length name)) = P + int (length name) + 1" .
  have cq: "charAt S (P + int (length name) + 1) = Some l"
    using charAt_at [of "pre @ name @ '' ''" l rest] by (simp add: S_def P_def ac_simps)
  with isLetter_not_quote [OF assms(2)]
  have nq: "\<not> (\<exists>q. charAt S (P + int (length name) + 1) = Some q \<and> isQuote q)" by simp
  from pa_flag [OF c0 l pn sk nq, of atts]
  show ?thesis by (simp add: S_def P_def)
qed


lemma firstOccurrence_iff:
  "firstOccurrence pat xs \<longleftrightarrow> (\<forall>i<length xs. \<not> prefix pat (drop i (xs @ pat)))"
  by (auto simp: firstOccurrence_def list_all_iff)

lemma prefix_shorter:
  assumes "prefix pat (ys @ rest)" and "length pat \<le> length ys"
  shows "prefix pat ys"
proof -
  from assms(1) obtain zs where "ys @ rest = pat @ zs" by (auto simp: prefix_def)
  then have "take (length pat) (ys @ rest) = pat" by simp
  with assms(2) have "take (length pat) ys = pat" by simp
  then show ?thesis by (metis take_is_prefix)
qed

lemma charAt_last:
  assumes "w \<noteq> []"
  shows "charAt (pre @ w @ rest) (int (length pre) + int (length w) - 1) = Some (last w)"
proof -
  from assms obtain ys y where w: "w = ys @ [y]" by (cases w rule: rev_cases) auto
  from charAt_at [of "pre @ ys" y rest] show ?thesis by (simp add: w)
qed

lemma pn_script:
  assumes "parseName S (pos + 1) = (''script'', p1)" and "parseAttrs S p1 [] = (atts, p2, False)"
    and "charAt S (p2 - 1) \<noteq> Some CHR ''/''"
  shows "parseNode (Suc n) opts S pos =
     Some (Inr (TNode ''script'' atts [Text (slice S (p2 + 1) (indexOf S ''</script>'' p2))],
                indexOf S ''</script>'' p2 + 9))"
  using assms by (simp add: pn_unfold Let_def)

lemma pn_style:
  assumes "parseName S (pos + 1) = (''style'', p1)" and "parseAttrs S p1 [] = (atts, p2, False)"
    and "charAt S (p2 - 1) \<noteq> Some CHR ''/''"
  shows "parseNode (Suc n) opts S pos =
     Some (Inr (TNode ''style'' atts [Text (slice S (p2 + 1) (indexOf S ''</style>'' p2))],
                indexOf S ''</style>'' p2 + 8))"
  using assms by (simp add: pn_unfold Let_def)

lemma pn_children:
  assumes "parseName S (pos + 1) = (name, p1)" and "parseAttrs S p1 [] = (atts, p2, False)"
    and "charAt S (p2 - 1) \<noteq> Some CHR ''/''"
    and "name \<noteq> ''script''" and "name \<noteq> ''style''" and "name \<notin> set (selfClosingTags opts)"
  shows "parseNode (Suc n) opts S pos =
     (case parseChildren n opts S name (p2 + 1) [] of
        None \<Rightarrow> None
      | Some (Inl e) \<Rightarrow> Some (Inl e)
      | Some (Inr (kids, p3)) \<Rightarrow> Some (Inr (TNode name atts kids, p3)))"
  using assms by (simp add: pn_unfold Let_def split: option.splits sum.splits)

lemma pn_no_children:
  assumes "parseName S (pos + 1) = (name, p1)" and "parseAttrs S p1 [] = (atts, p2, False)"
    and "charAt S (p2 - 1) = Some CHR ''/'' \<or>
         (name \<noteq> ''script'' \<and> name \<noteq> ''style'' \<and> name \<in> set (selfClosingTags opts))"
  shows "parseNode (Suc n) opts S pos = Some (Inr (TNode name atts [], p2 + 1))"
  using assms by (auto simp add: pn_unfold Let_def)

lemma pn_returned:
  assumes "parseName S (pos + 1) = (name, p1)" and "parseAttrs S p1 [] = (atts, p2, True)"
  shows "parseNode (Suc n) opts S pos = Some (Inr (TNode name atts [], p2))"
  using assms by (simp add: pn_unfold Let_def)

lemma indexFrom_first:
  "firstOccurrence pat xs \<Longrightarrow> indexFrom pat (xs @ pat @ rest) k = int k + int (length xs)"
proof (induction xs arbitrary: k)
  case Nil
  have "prefix pat (pat @ rest)" by simp
  then show ?case by (cases "pat @ rest") auto
next
  case (Cons x xs)
  from Cons.prems have a: "\<And>i. i < Suc (length xs) \<Longrightarrow> \<not> prefix pat (drop i ((x # xs) @ pat))"
    by (simp add: firstOccurrence_iff)
  from a [of 0] have "\<not> prefix pat ((x # xs @ pat) @ rest)"
    using prefix_shorter [of pat "x # xs @ pat" rest] by auto
  then have n: "\<not> prefix pat (x # xs @ pat @ rest)" by simp
  have "firstOccurrence pat xs"
    unfolding firstOccurrence_iff
  proof (intro allI impI)
    fix i assume "i < length xs"
    with a [of "Suc i"] show "\<not> prefix pat (drop i (xs @ pat))" by simp
  qed
  from Cons.IH [OF this, of "Suc k"] n show ?case by simp
qed

lemma indexOf_first:
  assumes "firstOccurrence pat xs"
  shows "indexOf (pre @ xs @ pat @ rest) pat (int (length pre)) = int (length pre) + int (length xs)"
  using indexFrom_first [OF assms, of rest "length pre"]
  by (simp add: indexOf_unfold clampPos_def)

lemma indexOf_skip_one:
  assumes "pat \<noteq> []" and "hd pat \<noteq> c"
  shows "indexOf (pre @ c # T) pat (int (length pre)) = indexOf (pre @ c # T) pat (int (length pre) + 1)"
proof -
  from assms have "\<not> prefix pat (c # T)" by (cases pat) auto
  then show ?thesis
    using assms by (simp add: indexOf_unfold clampPos_def nat_add_distrib)
qed

lemma script_node:
  fixes name tagRest content rest pre
  defines "S \<equiv> pre @ ''<'' @ name @ tagRest @ ''>'' @ content @ ''</'' @ name @ ''>'' @ rest"
  assumes nm: "name = ''script'' \<or> name = ''style''"
    and tr: "tagRest = [] \<or> hd tagRest \<in> set NAME_END_CHARS"
    and pa: "parseAttrs S (int (length pre) + 1 + int (length name)) [] =
       (atts, int (length pre) + 1 + int (length name) + int (length tagRest), False)"
    and sl: "tagRest = [] \<or> last tagRest \<noteq> CHR ''/''"
    and fo: "firstOccurrence (''</'' @ name @ ''>'') content"
  shows "parseNode (Suc n) opts S (int (length pre)) =
    Some (Inr (TNode name atts [Text content],
      int (length (pre @ ''<'' @ name @ tagRest @ ''>'' @ content @ ''</'' @ name @ ''>''))))"
proof -
  define P where "P = int (length pre)"
  define p2 where "p2 = P + 1 + int (length name) + int (length tagRest)"
  let ?close = "''</'' @ name @ ''>''"
  from nm have nc: "nameChars name" by (auto simp: nameChars_def NAME_END_CHARS_def)
  have pn: "parseName S (P + 1) = (name, P + 1 + int (length name))"
    using parseName_stop [OF nc, of "tagRest @ ''>'' @ content @ ?close @ rest" "pre @ ''<''"] tr
    by (cases tagRest) (simp_all add: S_def P_def NAME_END_CHARS_def ac_simps)
  have pa': "parseAttrs S (P + 1 + int (length name)) [] = (atts, p2, False)"
    using pa by (simp add: P_def p2_def)
  have "(name @ tagRest) \<noteq> []" using nm by auto
  then have "charAt S (p2 - 1) = Some (last (name @ tagRest))"
    using charAt_last [of "name @ tagRest" "pre @ ''<''" "''>'' @ content @ ?close @ rest"]
    by (simp add: S_def P_def p2_def ac_simps)
  moreover have "last (name @ tagRest) \<noteq> CHR ''/''" using sl nm by (cases "tagRest = []") auto
  ultimately have ns: "charAt S (p2 - 1) \<noteq> Some CHR ''/''" by simp
  have "indexOf S ?close p2 = indexOf S ?close (p2 + 1)"
    using indexOf_skip_one [of ?close "CHR ''>''" "pre @ ''<'' @ name @ tagRest" "content @ ?close @ rest"]
    by (simp add: S_def P_def p2_def ac_simps)
  also have "\<dots> = p2 + 1 + int (length content)"
    using indexOf_first [OF fo, of "pre @ ''<'' @ name @ tagRest @ ''>''" rest]
    by (simp add: S_def P_def p2_def ac_simps)
  finally have io: "indexOf S ?close p2 = p2 + 1 + int (length content)" .
  have sc: "slice S (p2 + 1) (p2 + 1 + int (length content)) = content"
    using slice_mid [of "pre @ ''<'' @ name @ tagRest @ ''>''" content "?close @ rest"]
    by (simp add: S_def P_def p2_def ac_simps)
  from nm show ?thesis
  proof
    assume s: "name = ''script''"
    from pn_script [OF pn [unfolded s] pa' [unfolded s] ns, of n opts] io sc
    have "parseNode (Suc n) opts S P =
        Some (Inr (TNode ''script'' atts [Text content], p2 + 1 + int (length content) + 9))"
      by (simp add: s)
    then show ?thesis by (simp add: p2_def P_def s)
  next
    assume s: "name = ''style''"
    from pn_style [OF pn [unfolded s] pa' [unfolded s] ns, of n opts] io sc
    have "parseNode (Suc n) opts S P =
        Some (Inr (TNode ''style'' atts [Text content], p2 + 1 + int (length content) + 8))"
      by (simp add: s)
    then show ?thesis by (simp add: p2_def P_def s)
  qed
qed

lemma script_node_plain:
  assumes nm: "name = ''script'' \<or> name = ''style''"
    and fo: "firstOccurrence (''</'' @ name @ ''>'') content"
  shows "parseNode (Suc n) opts (pre @ ''<'' @ name @ ''>'' @ content @ ''</'' @ name @ ''>'' @ rest)
      (int (length pre)) =
    Some (Inr (TNode name [] [Text content],
      int (length (pre @ ''<'' @ name @ ''>'' @ content @ ''</'' @ name @ ''>''))))"
proof -
  have "charAt (pre @ ''<'' @ name @ ''>'' @ content @ ''</'' @ name @ ''>'' @ rest)
      (int (length pre) + 1 + int (length name)) = Some CHR ''>''"
    using charAt_at [of "pre @ ''<'' @ name" "CHR ''>''" "content @ ''</'' @ name @ ''>'' @ rest"]
    by (simp add: ac_simps)
  from pa_gt [OF this, of "[]"] script_node [OF nm _ _ _ fo, of "[]" pre rest "[]" n opts]
  show ?thesis by simp
qed












lemma distinct_tagNames: "distinct (tagNames cs)"
proof (induction cs)
  case Nil
  show ?case by simp
next
  case (Cons c cs)
  then show ?case by (cases c) auto
qed


lemma script_loops:
  "parseChildren n opts ''aaaaaaaa<script>'' tag 8 kids = None"
proof (induction n arbitrary: kids)
  case 0
  show ?case by (simp add: parseChildren.simps)
next
  case (Suc n)
  define S where "S = ''aaaaaaaa<script>''"
  have c: "charAt S 8 = Some CHR ''<''" "charAt S (8 + 1) \<noteq> Some CHR ''/''"
    "charAt S (8 + 1) \<noteq> Some CHR ''!''"
    unfolding S_def by code_simp+
  have pn: "parseName S (8 + 1) = (''script'', 15)" unfolding S_def by code_simp
  have pa: "parseAttrs S 15 [] = ([], 15, False)" unfolding S_def by code_simp
  have ns: "charAt S (15 - 1) \<noteq> Some CHR ''/''" unfolding S_def by code_simp
  have io: "indexOf S ''</script>'' 15 = - 1" unfolding S_def by code_simp
  show ?case
  proof (cases n)
    case 0
    then show ?thesis
      unfolding S_def [symmetric] by (simp add: pc_node [OF c] parseNode.simps)
  next
    case (Suc m)
    from pn_script [OF pn pa ns, of m opts] io
    have "parseNode n opts S 8 = Some (Inr (TNode ''script'' [] [Text (slice S (15 + 1) (- 1))], 8))"
      by (simp add: Suc)
    with Suc.IH show ?thesis
      unfolding S_def [symmetric] by (simp add: pc_node [OF c] S_def [symmetric])
  qed
qed

lemma style_loops:
  "parseChildren n opts ''aaaaaaa<style>'' tag 7 kids = None"
proof (induction n arbitrary: kids)
  case 0
  show ?case by (simp add: parseChildren.simps)
next
  case (Suc n)
  define S where "S = ''aaaaaaa<style>''"
  have c: "charAt S 7 = Some CHR ''<''" "charAt S (7 + 1) \<noteq> Some CHR ''/''"
    "charAt S (7 + 1) \<noteq> Some CHR ''!''"
    unfolding S_def by code_simp+
  have pn: "parseName S (7 + 1) = (''style'', 13)" unfolding S_def by code_simp
  have pa: "parseAttrs S 13 [] = ([], 13, False)" unfolding S_def by code_simp
  have ns: "charAt S (13 - 1) \<noteq> Some CHR ''/''" unfolding S_def by code_simp
  have io: "indexOf S ''</style>'' 13 = - 1" unfolding S_def by code_simp
  show ?case
  proof (cases n)
    case 0
    then show ?thesis
      unfolding S_def [symmetric] by (simp add: pc_node [OF c] parseNode.simps)
  next
    case (Suc m)
    from pn_style [OF pn pa ns, of m opts] io
    have "parseNode n opts S 7 = Some (Inr (TNode ''style'' [] [Text (slice S (13 + 1) (- 1))], 7))"
      by (simp add: Suc)
    with Suc.IH show ?thesis
      unfolding S_def [symmetric] by (simp add: pc_node [OF c] S_def [symmetric])
  qed
qed

lemma script_never_returns: "parseChildren n opts ''aaaaaaaa<script>'' tag 0 [] = None"
proof (cases n)
  case 0
  then show ?thesis by (simp add: parseChildren.simps)
next
  case (Suc m)
  define S where "S = ''aaaaaaaa<script>''"
  have c: "charAt S 0 = Some CHR ''a''" unfolding S_def by code_simp
  have t: "snd (parseText S 0) + 1 = 8" unfolding S_def by code_simp
  show ?thesis
    unfolding Suc S_def [symmetric]
    using script_loops [of m opts tag, folded S_def]
    by (simp add: pc_text [OF c] t)
qed

lemma style_never_returns: "parseChildren n opts ''aaaaaaa<style>'' tag 0 [] = None"
proof (cases n)
  case 0
  then show ?thesis by (simp add: parseChildren.simps)
next
  case (Suc m)
  define S where "S = ''aaaaaaa<style>''"
  have c: "charAt S 0 = Some CHR ''a''" unfolding S_def by code_simp
  have t: "snd (parseText S 0) + 1 = 7" unfolding S_def by code_simp
  show ?thesis
    unfolding Suc S_def [symmetric]
    using style_loops [of m opts tag, folded S_def]
    by (simp add: pc_text [OF c] t)
qed

lemma substringFrom_minus: "substringFrom S (- 1) = S"
  by (simp add: substringFrom_def clampPos_def)

lemma attrSearch_no_progress:
  assumes "findEl S \<noteq> - 1" and "lastIndexOf S CHR ''<'' (findEl S) = - 1"
  shows "attrSearch n findEl opts S out = None"
proof (induction n)
  case 0
  show ?case by simp
next
  case (Suc n)
  with assms show ?case by (simp add: Let_def substringFrom_minus)
qed

lemma includes_prefix_mono:
  assumes "str_includes b pat" and "prefix b body"
  shows "str_includes body pat"
proof -
  from assms(1) have ne: "indexFrom pat b 0 \<noteq> - 1"
    by (simp add: str_includes_def indexOf_unfold clampPos_def)
  define j where "j = nat (indexFrom pat b 0)"
  from indexFrom_found [OF ne] have jl: "j \<le> length b" unfolding j_def by linarith
  from indexFrom_prefix [OF ne] have p: "prefix pat (drop j b)" by (simp add: j_def)
  from assms(2) obtain r where body: "body = b @ r" by (auto simp: prefix_def)
  from p jl have "prefix pat (drop j body)" by (simp add: body)
  moreover from jl have "j \<le> length body" by (simp add: body)
  ultimately show ?thesis by (rule includes_prefix_drop)
qed

lemma tiny_node:
  assumes "dat = ''<'' \<or> dat = ''<!'' \<or> dat = ''<!-''"
  shows "\<exists>node. parseNode (Suc (Suc n)) opts dat 0 = Some (Inr (node, int (length dat) + 1))"
proof -
  define name where "name = tl dat"
  define L where "L = int (length dat)"
  have nm: "parseName dat (0 + 1) = (name, L)"
    using assms unfolding name_def L_def by (elim disjE; hypsubst) code_simp+
  have pa: "parseAttrs dat L [] = ([], L, False)" by (simp add: pa_end charAt_beyond L_def)
  have ns: "charAt dat (L - 1) \<noteq> Some CHR ''/''"
    using assms unfolding L_def by (elim disjE; hypsubst) code_simp+
  have n1: "name \<noteq> ''script''" "name \<noteq> ''style''"
    using assms unfolding name_def by auto
  have e: "charAt dat (L + 1) = None" by (simp add: charAt_beyond L_def)
  show ?thesis
  proof (cases "name \<in> set (selfClosingTags opts)")
    case True
    from pn_no_children [OF nm pa, of opts "Suc n"] True n1 show ?thesis
      by (simp add: L_def)
  next
    case False
    from pn_children [OF nm pa ns n1 False, of "Suc n"] pc_end [OF e, of n opts name "[]"]
    show ?thesis by (simp add: L_def)
  qed
qed

lemma sliceFrom_0: "sliceFrom S 0 = S"
  by (simp add: sliceFrom_def sliceIndex_def)

lemma comment_prefix_chunk:
  assumes "prefix dat (''<!--'' @ body)" and "\<not> str_includes body ''-->''"
  shows "transformLoop (Suc (Suc (Suc n))) opts dat 0 0 [] =
     Some (Inr ([], \<lparr>data = dat, position = 0\<rparr>))"
proof -
  from assms(1) consider (empty) "dat = []" | (tiny) "dat = ''<'' \<or> dat = ''<!'' \<or> dat = ''<!-''"
    | (comment) b where "dat = ''<!--'' @ b" "prefix b body"
  proof -
    assume r: "dat = [] \<Longrightarrow> thesis" "dat = ''<'' \<or> dat = ''<!'' \<or> dat = ''<!-'' \<Longrightarrow> thesis"
      "\<And>b. dat = ''<!--'' @ b \<Longrightarrow> prefix b body \<Longrightarrow> thesis"
    show thesis
    proof (cases dat)
      case Nil
      then show ?thesis by (rule r(1))
    next
      case c1: (Cons x1 d1)
      show ?thesis
      proof (cases d1)
        case Nil
        with c1 assms(1) show ?thesis by (intro r(2)) simp
      next
        case c2: (Cons x2 d2)
        show ?thesis
        proof (cases d2)
          case Nil
          with c1 c2 assms(1) show ?thesis by (intro r(2)) simp
        next
          case c3: (Cons x3 d3)
          show ?thesis
          proof (cases d3)
            case Nil
            with c1 c2 c3 assms(1) show ?thesis by (intro r(2)) simp
          next
            case c4: (Cons x4 d4)
            with c1 c2 c3 assms(1) show ?thesis by (intro r(3) [of d4]) simp_all
          qed
        qed
      qed
    qed
  qed
  then show ?thesis
  proof cases
    case empty
    have "indexOf [] ''<'' 0 = - 1" by code_simp
    then show ?thesis by (simp add: empty)
  next
    case tiny
    from tiny_node [OF tiny, of n opts] obtain node
      where pn: "parseNode (Suc (Suc n)) opts dat 0 = Some (Inr (node, int (length dat) + 1))" ..
    have io: "indexOf dat ''<'' 0 = 0" using tiny by (elim disjE; hypsubst) code_simp+
    have c: "charAt dat 1 \<noteq> Some CHR ''/''" "charAt dat 1 = Some CHR ''!'' \<longrightarrow> charAt dat (1 + 1) \<noteq> Some CHR ''-''
        \<or> charAt dat (1 + 2) \<noteq> Some CHR ''-''"
      using tiny by (elim disjE; hypsubst; code_simp)+
    from io c pn show ?thesis by (auto simp: sliceFrom_0)
  next
    case comment
    have io: "indexOf dat ''<'' 0 = 0" by (simp add: comment indexOf_unfold clampPos_def)
    have c: "charAt dat 1 = Some CHR ''!''" "charAt dat (1 + 1) = Some CHR ''-''"
      "charAt dat (1 + 2) = Some CHR ''-''"
      by (simp_all add: comment charAt_Cons)
    from assms(2) comment(2) have "\<not> str_includes b ''-->''"
      using includes_prefix_mono by blast
    from indexOf_none [OF this, of "''<!--''"] have ce: "indexOf dat ''-->'' (1 + 3) = - 1"
      by (simp add: comment)
    from io c ce show ?thesis by (simp add: sliceFrom_0 charAt_Cons comment)
  qed
qed

lemma run_comment_only:
  assumes "\<not> str_includes body ''-->''"
  shows "d @ concat chunks = ''<!--'' @ body \<Longrightarrow>
    runStream (Suc (Suc (Suc n))) opts \<lparr>data = d, position = 0\<rparr> chunks = Some (Inr [])"
proof (induction chunks arbitrary: d)
  case Nil
  show ?case by simp
next
  case (Cons c cs)
  from Cons.prems have "prefix (d @ c) (''<!--'' @ body)"
    by (metis append.assoc concat.simps(2) prefixI)
  from comment_prefix_chunk [OF this assms, of n opts]
  have t: "transform (Suc (Suc (Suc n))) opts \<lparr>data = d, position = 0\<rparr> c =
      Some (Inr ([], \<lparr>data = d @ c, position = 0\<rparr>))"
    by (simp add: transform_def)
  from Cons.prems have "(d @ c) @ concat cs = ''<!--'' @ body" by simp
  from Cons.IH [OF this] t show ?case by simp
qed

lemma setAttr_new: "k \<notin> set (map fst atts) \<Longrightarrow> setAttr atts k v = atts @ [(k, v)]"
  by (induction atts k v rule: setAttr.induct) auto

lemma setAll_distinct: "distinct (map fst (atts @ a)) \<Longrightarrow> setAll atts a = atts @ a"
proof (induction a arbitrary: atts)
  case Nil
  show ?case by (simp add: setAll_def)
next
  case (Cons kv a)
  obtain k v where kv: "kv = (k, v)" by (cases kv)
  from Cons.prems have n: "k \<notin> set (map fst atts)" by (auto simp: kv)
  from Cons.prems have "distinct (map fst ((atts @ [(k, v)]) @ a))" by (auto simp: kv)
  from Cons.IH [OF this] setAttr_new [OF n, of v] show ?case
    by (simp add: setAll_def kv)
qed

lemma indexOf_char_first:
  assumes "c \<notin> set xs"
  shows "indexOf (pre @ xs @ c # rest) [c] (int (length pre)) = int (length pre) + int (length xs)"
proof -
  from assms have "takeWhile (\<lambda>x. x \<noteq> c) xs = xs" by (auto simp: takeWhile_eq_all_conv)
  with assms show ?thesis
    by (simp add: indexOf_unfold clampPos_def indexFrom_char takeWhile_append2 takeWhile_tail)
qed

lemma quoteFor_ok:
  assumes "\<not> (CHR 0x22 \<in> set v \<and> CHR 0x27 \<in> set v)"
  shows "isQuote (quoteFor v)" and "quoteFor v \<notin> set v"
  using assms by (auto simp: quoteFor_def isQuote_def)

lemma renderAttrs_Nil: "renderAttrs [] = []"
  by (simp add: renderAttrs_def)

lemma renderAttrs_Cons: "renderAttrs (kv # r) = '' '' @ renderAttr kv @ renderAttrs r"
  by (simp add: renderAttrs_def)

lemma setAll_Cons: "setAll atts ((k, v) # r) = setAll (setAttr atts k v) r"
  by (simp add: setAll_def)

lemma setAll_Nil: "setAll atts [] = atts"
  by (simp add: setAll_def)

lemma renderAttr_letter:
  assumes "attrOk (k, v)"
  shows "\<exists>l tl. renderAttr (k, v) = l # tl \<and> isLetter l"
proof -
  from assms have "attrName k" by (simp add: attrOk_def)
  from attrName_letter [OF this] obtain c cs where "k = c # cs" "isLetter c" by blast
  then show ?thesis by (cases v) (auto simp: renderAttr_def)
qed

lemma attrs_from_name:
  "list_all attrOk ((k, v) # r) \<Longrightarrow>
   parseAttrs (pre @ renderAttr (k, v) @ renderAttrs r @ ''>'' @ rest) (int (length pre)) atts =
     (setAll atts ((k, v) # r),
      int (length pre) + int (length (renderAttr (k, v) @ renderAttrs r)), False)"
proof (induction r arbitrary: k v pre atts)
  case Nil
  from Nil.prems have ok: "attrOk (k, v)" by simp
  then have an: "attrName k" by (simp add: attrOk_def)
  show ?case
  proof (cases v)
    case None
    from attr_flag_end [OF an, of pre rest atts] show ?thesis
      by (simp add: None renderAttr_def renderAttrs_Nil setAll_Cons setAll_Nil)
  next
    case (Some w)
    from ok Some have q: "isQuote (quoteFor w)" "quoteFor w \<notin> set w"
      using quoteFor_ok [of w] by (simp_all add: attrOk_def)
    define S where "S = pre @ k @ ''='' @ quoteFor w # w @ quoteFor w # ''>'' @ rest"
    from attr_quoted [OF an q, of pre "''>'' @ rest" atts]
    have a: "parseAttrs S (int (length pre)) atts =
        parseAttrs S (int (length pre) + int (length k) + int (length w) + 3) (setAttr atts k (Some w))"
      by (simp add: S_def)
    have "charAt S (int (length pre) + int (length k) + int (length w) + 3) = Some CHR ''>''"
      using charAt_at [of "pre @ k @ ''='' @ quoteFor w # w @ [quoteFor w]" "CHR ''>''" rest]
      by (simp add: S_def ac_simps)
    from pa_gt [OF this] a
    have "parseAttrs S (int (length pre)) atts =
        (setAttr atts k (Some w), int (length pre) + int (length k) + int (length w) + 3, False)"
      by simp
    then show ?thesis
      by (simp add: S_def Some renderAttr_def renderAttrs_Nil setAll_Cons setAll_Nil ac_simps)
  qed
next
  case (Cons kv2 r)
  obtain k2 v2 where kv2: "kv2 = (k2, v2)" by (cases kv2)
  from Cons.prems have ok: "attrOk (k, v)" and ok2: "list_all attrOk ((k2, v2) # r)"
    by (simp_all add: kv2)
  from ok have an: "attrName k" by (simp add: attrOk_def)
  from ok2 have "attrOk (k2, v2)" by simp
  from renderAttr_letter [OF this] obtain l tl where l: "renderAttr (k2, v2) = l # tl" "isLetter l"
    by blast
  define R where "R = renderAttr (k2, v2) @ renderAttrs r @ ''>'' @ rest"
  have Rl: "R = l # tl @ renderAttrs r @ ''>'' @ rest" by (simp add: R_def l)
  show ?case
  proof (cases v)
    case None
    define S where "S = pre @ k @ '' '' @ R"
    from attr_flag_next [OF an l(2), of pre "tl @ renderAttrs r @ ''>'' @ rest" atts]
    have a: "parseAttrs S (int (length pre)) atts =
        parseAttrs S (int (length pre) + int (length k) + 1) (setAttr atts k None)"
      by (simp add: S_def Rl)
    from Cons.IH [OF ok2, of "pre @ k @ '' ''" "setAttr atts k None"]
    have b: "parseAttrs S (int (length pre) + int (length k) + 1) (setAttr atts k None) =
        (setAll (setAttr atts k None) ((k2, v2) # r),
         int (length pre) + int (length k) + 1 + int (length (renderAttr (k2, v2) @ renderAttrs r)), False)"
      by (simp add: S_def R_def ac_simps)
    from a b show ?thesis
      by (simp add: S_def R_def None kv2 renderAttr_def [of "(k, None)"] renderAttrs_Cons setAll_Cons ac_simps)
  next
    case (Some w)
    from ok Some have q: "isQuote (quoteFor w)" "quoteFor w \<notin> set w"
      using quoteFor_ok [of w] by (simp_all add: attrOk_def)
    define S where "S = pre @ k @ ''='' @ quoteFor w # w @ quoteFor w # '' '' @ R"
    define P' where "P' = int (length pre) + int (length k) + int (length w) + 3"
    from attr_quoted [OF an q, of pre "'' '' @ R" atts]
    have a: "parseAttrs S (int (length pre)) atts = parseAttrs S P' (setAttr atts k (Some w))"
      by (simp add: S_def P'_def)
    have c: "charAt S P' = Some CHR '' ''"
      using charAt_at [of "pre @ k @ ''='' @ quoteFor w # w @ [quoteFor w]" "CHR '' ''" R]
      by (simp add: S_def P'_def ac_simps)
    have "\<not> isLetter CHR '' ''" by (simp add: isLetter_def)
    from pa_skip [OF c _ this]
    have s: "parseAttrs S P' (setAttr atts k (Some w)) = parseAttrs S (P' + 1) (setAttr atts k (Some w))"
      by simp
    from Cons.IH [OF ok2, of "pre @ k @ ''='' @ quoteFor w # w @ quoteFor w # '' ''" "setAttr atts k (Some w)"]
    have b: "parseAttrs S (P' + 1) (setAttr atts k (Some w)) =
        (setAll (setAttr atts k (Some w)) ((k2, v2) # r),
         P' + 1 + int (length (renderAttr (k2, v2) @ renderAttrs r)), False)"
      by (simp add: S_def R_def P'_def ac_simps)
    from a s b show ?thesis
      by (simp add: S_def R_def P'_def Some kv2 renderAttr_def [of "(k, Some w)"] renderAttrs_Cons
          setAll_Cons ac_simps)
  qed
qed

lemma attrs_all:
  assumes "list_all attrOk a"
  shows "parseAttrs (pre @ renderAttrs a @ ''>'' @ rest) (int (length pre)) atts =
     (setAll atts a, int (length pre) + int (length (renderAttrs a)), False)"
proof (cases a)
  case Nil
  have "charAt (pre @ ''>'' @ rest) (int (length pre)) = Some CHR ''>''"
    using charAt_at [of pre "CHR ''>''" rest] by simp
  from pa_gt [OF this] show ?thesis by (simp add: Nil renderAttrs_Nil setAll_Nil)
next
  case (Cons kv r)
  obtain k v where kv: "kv = (k, v)" by (cases kv)
  define S where "S = pre @ '' '' @ renderAttr (k, v) @ renderAttrs r @ ''>'' @ rest"
  have c: "charAt S (int (length pre)) = Some CHR '' ''"
    using charAt_at [of pre "CHR '' ''"] by (simp add: S_def)
  have "\<not> isLetter CHR '' ''" by (simp add: isLetter_def)
  from pa_skip [OF c _ this]
  have s: "parseAttrs S (int (length pre)) atts = parseAttrs S (int (length pre) + 1) atts"
    by simp
  from assms have "list_all attrOk ((k, v) # r)" by (simp add: Cons kv)
  from attrs_from_name [OF this, of "pre @ '' ''" rest atts]
  have "parseAttrs S (int (length pre) + 1) atts =
     (setAll atts ((k, v) # r),
      int (length pre) + 1 + int (length (renderAttr (k, v) @ renderAttrs r)), False)"
    by (simp add: S_def ac_simps)
  with s show ?thesis
    by (simp add: S_def Cons kv renderAttrs_Cons ac_simps)
qed

lemma str_includes_refl: "str_includes s s"
  by (cases s) (simp_all add: str_includes_def indexOf_unfold clampPos_def)

lemma nameChars_no_gt: "nameChars name \<Longrightarrow> CHR ''>'' \<notin> set name \<and> CHR ''/'' \<notin> set name"
  by (auto simp: nameChars_def NAME_END_CHARS_def list_all_iff)

lemma close_step:
  assumes "nameChars name"
  shows "parseChildren (Suc n) opts (pre @ ''</'' @ name @ ''>'' @ rest) name (int (length pre)) kids =
     Some (Inr (kids, int (length pre) + int (length name) + 3))"
proof -
  define S where "S = pre @ ''</'' @ name @ ''>'' @ rest"
  define P where "P = int (length pre)"
  have c0: "charAt S P = Some CHR ''<''" by (simp add: S_def P_def charAt_at)
  have c1: "charAt S (P + 1) = Some CHR ''/''" using charAt_at1 [of pre] by (simp add: S_def P_def)
  from nameChars_no_gt [OF assms] have "CHR ''>'' \<notin> set (''</'' @ name)" by simp
  from indexOf_char_first [OF this, of pre rest]
  have io: "indexOf S ''>'' P = P + 2 + int (length name)" by (simp add: S_def P_def)
  have sub: "substring S (P + 2) (P + 2 + int (length name)) = name"
    using substring_mid [of "pre @ ''</''" name "''>'' @ rest"] by (simp add: S_def P_def ac_simps)
  have "P + 2 + int (length name) + 1 \<noteq> 0" by (simp add: P_def)
  with pc_close [OF c0 c1, of n opts name kids] io sub str_includes_refl [of name]
  have "parseChildren (Suc n) opts S name P kids = Some (Inr (kids, P + 2 + int (length name) + 1))"
    by simp
  then show ?thesis by (simp add: S_def P_def ac_simps)
qed

lemma text_step:
  assumes "textOk s"
  shows "parseChildren (Suc n) opts (pre @ s @ ''<'' @ rest) tag (int (length pre)) kids =
     parseChildren n opts (pre @ s @ ''<'' @ rest) tag (int (length pre) + int (length s))
       (kids @ [Text s])"
proof -
  define S where "S = pre @ s @ ''<'' @ rest"
  define P where "P = int (length pre)"
  from assms obtain c cs where s: "s = c # cs" and ne: "c \<noteq> CHR ''<''"
    by (cases s) (auto simp: textOk_def)
  from assms have nl: "CHR ''<'' \<notin> set s" and tr: "trim s = s" and sn: "s \<noteq> []"
    by (simp_all add: textOk_def)
  have c0: "charAt S P = Some c" by (simp add: S_def P_def s charAt_at)
  from indexOf_char_first [OF nl, of pre rest]
  have io: "indexOf S ''<'' P = P + int (length s)" by (simp add: S_def P_def)
  have sl: "slice S P (P + int (length s)) = s"
    using slice_mid [of pre s "''<'' @ rest"] by (simp add: S_def P_def)
  have "P + int (length s) - 1 \<noteq> - 2" by (simp add: P_def)
  with io sl have pt: "parseText S P = (s, P + int (length s) - 1)"
    by (simp add: parseText_def Let_def)
  from pc_text [OF c0 ne, of n opts tag kids] pt tr sn
  have "parseChildren (Suc n) opts S tag P kids =
      parseChildren n opts S tag (P + int (length s)) (kids @ [Text s])"
    by simp
  then show ?thesis by (simp add: S_def P_def)
qed

lemma renderAttr_last:
  assumes "attrOk kv"
  shows "renderAttr kv \<noteq> [] \<and> last (renderAttr kv) \<noteq> CHR ''/''"
proof -
  obtain k v where kv: "kv = (k, v)" by (cases kv)
  from assms have an: "attrName k" by (simp add: attrOk_def kv)
  from attrName_letter [OF an] have kn: "k \<noteq> []" by auto
  from nameChars_no_gt [OF attrName_nameChars [OF an]] last_in_set [OF kn]
  have "last k \<noteq> CHR ''/''" by metis
  with kn show ?thesis
    by (cases v) (auto simp: kv renderAttr_def quoteFor_def)
qed

lemma open_tag_last:
  assumes "name \<noteq> []" and "nameChars name" and "list_all attrOk a"
  shows "last (name @ renderAttrs a) \<noteq> CHR ''/''"
proof (cases a rule: rev_cases)
  case Nil
  from nameChars_no_gt [OF assms(2)] last_in_set [OF assms(1)]
  have "last name \<noteq> CHR ''/''" by metis
  with Nil show ?thesis by (simp add: renderAttrs_Nil)
next
  case (snoc a' kv)
  with assms(3) have "attrOk kv" by simp
  from renderAttr_last [OF this] show ?thesis
    by (simp add: snoc renderAttrs_def)
qed

lemma node_open:
  assumes "tagOk (selfClosingTags opts) name" and "distinct (map fst a)" and "list_all attrOk a"
  shows "parseNode (Suc n) opts (pre @ ''<'' @ name @ renderAttrs a @ ''>'' @ body) (int (length pre)) =
     (case parseChildren n opts (pre @ ''<'' @ name @ renderAttrs a @ ''>'' @ body) name
             (int (length pre) + int (length name) + int (length (renderAttrs a)) + 2) [] of
        None \<Rightarrow> None
      | Some (Inl e) \<Rightarrow> Some (Inl e)
      | Some (Inr (kids, p3)) \<Rightarrow> Some (Inr (TNode name a kids, p3)))"
proof -
  define S where "S = pre @ ''<'' @ name @ renderAttrs a @ ''>'' @ body"
  define P where "P = int (length pre)"
  define p1 where "p1 = P + 1 + int (length name)"
  define p2 where "p2 = p1 + int (length (renderAttrs a))"
  from assms(1) have nc: "nameChars name" and nn: "name \<noteq> []"
    and ns: "name \<noteq> ''script''" "name \<noteq> ''style''" "name \<notin> set (selfClosingTags opts)"
    by (auto simp: tagOk_def)
  have hd: "hd (renderAttrs a @ ''>'' @ body) \<in> set NAME_END_CHARS"
    by (cases a) (simp_all add: renderAttrs_Nil renderAttrs_Cons NAME_END_CHARS_def)
  have pn: "parseName S (P + 1) = (name, p1)"
    using parseName_stop [OF nc, of "renderAttrs a @ ''>'' @ body" "pre @ ''<''"] hd
    by (simp add: S_def P_def p1_def ac_simps)
  have pa: "parseAttrs S p1 [] = (a, p2, False)"
    using attrs_all [OF assms(3), of "pre @ ''<'' @ name" body "[]"] setAll_distinct [of "[]" a] assms(2)
    by (simp add: S_def P_def p1_def p2_def ac_simps)
  have "charAt S (p2 - 1) = Some (last (name @ renderAttrs a))"
    using charAt_last [of "name @ renderAttrs a" "pre @ ''<''" "''>'' @ body"] nn
    by (simp add: S_def P_def p1_def p2_def ac_simps)
  with open_tag_last [OF nn nc assms(3)] have sl: "charAt S (p2 - 1) \<noteq> Some CHR ''/''" by simp
  from pn_children [OF pn pa sl ns, of n]
  show ?thesis by (simp add: S_def P_def p1_def p2_def ac_simps)
qed

lemma child_node_step:
  assumes "tagOk sc name"
    and "parseNode n opts (pre @ ''<'' @ name @ X) (int (length pre)) = Some (Inr (TNode name a k, p))"
  shows "parseChildren (Suc n) opts (pre @ ''<'' @ name @ X) tag (int (length pre)) kids =
     parseChildren n opts (pre @ ''<'' @ name @ X) tag p (kids @ [TNode name a k])"
proof -
  define S where "S = pre @ ''<'' @ name @ X"
  define P where "P = int (length pre)"
  from assms(1) obtain c cs where nm: "name = c # cs" and c: "c \<noteq> CHR ''!''" "c \<noteq> CHR ''?''"
    by (cases name) (auto simp: tagOk_def)
  from assms(1) nm have c': "c \<noteq> CHR ''/''"
    using nameChars_no_gt [of name] by (auto simp: tagOk_def)
  have c0: "charAt S P = Some CHR ''<''" by (simp add: S_def P_def charAt_at)
  have c1: "charAt S (P + 1) = Some c" using charAt_at1 [of pre "CHR ''<''" c] by (simp add: S_def P_def nm)
  from c1 c c' have n1: "charAt S (P + 1) \<noteq> Some CHR ''/''" "charAt S (P + 1) \<noteq> Some CHR ''!''" by simp_all
  from assms(2) have pn: "parseNode n opts S P = Some (Inr (TNode name a k, p))"
    by (simp add: S_def P_def)
  from pc_node [OF c0 n1, of n opts tag kids] pn c(2)
  have "parseChildren (Suc n) opts S tag P kids = parseChildren n opts S tag p (kids @ [TNode name a k])"
    by (simp add: nm)
  then show ?thesis by (simp add: S_def P_def)
qed

lemma render_element_open:
  "isElement c \<Longrightarrow> \<exists>r. render c = CHR ''<'' # r"
  by (cases c) (simp_all add: isElement_def)

lemma after_text_open:
  assumes "noAdjacentText (Text s # cs)"
  shows "\<exists>r. concat (map render cs) @ ''</'' @ name @ ''>'' @ rest = CHR ''<'' # r"
proof (cases cs)
  case Nil
  then show ?thesis by simp
next
  case (Cons c cs')
  with assms obtain t a k where "c = TNode t a k" by (cases c) simp_all
  with Cons show ?thesis by simp
qed

lemma noAdjacentText_tl: "noAdjacentText (c # cs) \<Longrightarrow> noAdjacentText cs"
  by (cases c; cases cs) (auto elim: noAdjacentText.elims)

lemma scanSteps_pos: "0 < scanSteps c"
  by (cases c) simp_all

lemma children_parse:
  assumes ih: "\<And>c n pre rest. c \<in> set k \<Longrightarrow> canonical (selfClosingTags opts) c \<Longrightarrow> isElement c \<Longrightarrow>
      scanSteps c \<le> n \<Longrightarrow>
      parseNode n opts (pre @ render c @ rest) (int (length pre)) =
        Some (Inr (c, int (length pre) + int (length (render c))))"
    and can: "list_all (canonical (selfClosingTags opts)) k"
    and adj: "noAdjacentText k"
    and nc: "nameChars name"
    and fuel: "sum_list (map scanSteps k) < n"
  shows "parseChildren n opts (pre @ concat (map render k) @ ''</'' @ name @ ''>'' @ rest) name
        (int (length pre)) kids =
      Some (Inr (kids @ k, int (length pre) + int (length (concat (map render k))) + int (length name) + 3))"
  using ih can adj fuel
proof (induction k arbitrary: pre kids n)
  case Nil
  then obtain m where "n = Suc m" by (cases n) simp_all
  with close_step [OF nc, of m opts pre rest kids] show ?case by simp
next
  case (Cons c cs)
  define R where "R = concat (map render cs) @ ''</'' @ name @ ''>'' @ rest"
  define S where "S = pre @ render c @ R"
  define P where "P = int (length pre)"
  define L where "L = int (length (render c))"
  from Cons.prems(4) scanSteps_pos [of c] obtain m where m: "n = Suc m"
    and m1: "scanSteps c \<le> m" and m2: "sum_list (map scanSteps cs) < m"
    by (cases n) simp_all
  from Cons.prems(2) have cc: "canonical (selfClosingTags opts) c"
    and cs: "list_all (canonical (selfClosingTags opts)) cs" by simp_all
  from noAdjacentText_tl [OF Cons.prems(3)] have adj': "noAdjacentText cs" .
  have ih': "\<And>c n pre rest. c \<in> set cs \<Longrightarrow> canonical (selfClosingTags opts) c \<Longrightarrow> isElement c \<Longrightarrow>
      scanSteps c \<le> n \<Longrightarrow>
      parseNode n opts (pre @ render c @ rest) (int (length pre)) =
        Some (Inr (c, int (length pre) + int (length (render c))))"
    using Cons.prems(1) by simp
  from Cons.IH [OF ih' cs adj' m2, of "pre @ render c" "kids @ [c]"]
  have n2: "parseChildren m opts S name (P + L) (kids @ [c]) =
      Some (Inr (kids @ c # cs, P + L + int (length (concat (map render cs))) + int (length name) + 3))"
    by (simp add: S_def R_def P_def L_def)
  have "parseChildren (Suc m) opts S name P kids =
      parseChildren m opts S name (P + L) (kids @ [c])"
  proof (cases c)
    case (Text s)
    with cc have ok: "textOk s" by simp
    from after_text_open [of s cs name rest] Cons.prems(3) Text
    obtain r where r: "R = ''<'' @ r" by (auto simp: R_def)
    from text_step [OF ok, of m opts pre r name kids]
    show ?thesis by (simp add: S_def r Text P_def L_def)
  next
    case (TNode t a k')
    with cc have tk: "tagOk (selfClosingTags opts) t" by simp
    from TNode have el: "isElement c" by (simp add: isElement_def)
    from Cons.prems(1) [OF _ cc el m1, of pre R]
    have n1: "parseNode m opts S P = Some (Inr (c, P + L))"
      by (simp add: S_def P_def L_def)
    define X where "X = renderAttrs a @ ''>'' @ concat (map render k') @ ''</'' @ t @ ''>'' @ R"
    have SX: "S = pre @ ''<'' @ t @ X" by (simp add: S_def X_def TNode)
    from n1 have "parseNode m opts (pre @ ''<'' @ t @ X) (int (length pre)) =
        Some (Inr (TNode t a k', P + L))"
      by (simp add: SX P_def TNode)
    from child_node_step [OF tk this, of name kids]
    show ?thesis by (simp add: SX P_def TNode)
  qed
  with n2 have "parseChildren n opts S name P kids =
      Some (Inr (kids @ c # cs, P + L + int (length (concat (map render cs))) + int (length name) + 3))"
    by (simp add: m)
  then show ?case by (simp add: S_def R_def P_def L_def ac_simps)
qed

lemma canonical_parses:
  assumes "canonical (selfClosingTags opts) c" and "isElement c" and "scanSteps c \<le> n"
  shows "parseNode n opts (pre @ render c @ rest) (int (length pre)) =
        Some (Inr (c, int (length pre) + int (length (render c))))"
  using assms
proof (induction c arbitrary: pre rest n)
  case (Text s)
  then show ?case by (simp add: isElement_def)
next
  case (TNode t a k)
  from TNode.prems(1) have tk: "tagOk (selfClosingTags opts) t" and da: "distinct (map fst a)"
    and aa: "list_all attrOk a" and ck: "list_all (canonical (selfClosingTags opts)) k"
    and adj: "noAdjacentText k" by simp_all
  from tk have nc: "nameChars t" by (simp add: tagOk_def)
  from TNode.prems(3) obtain m where m: "n = Suc m" and mk: "sum_list (map scanSteps k) < m"
    by (cases n) simp_all
  define body where "body = concat (map render k) @ ''</'' @ t @ ''>'' @ rest"
  define S where "S = pre @ ''<'' @ t @ renderAttrs a @ ''>'' @ body"
  define P where "P = int (length pre)"
  define q where "q = P + int (length t) + int (length (renderAttrs a)) + 2"
  define e where "e = q + int (length (concat (map render k))) + int (length t) + 3"
  have ih: "\<And>c n pre rest. c \<in> set k \<Longrightarrow> canonical (selfClosingTags opts) c \<Longrightarrow> isElement c \<Longrightarrow>
      scanSteps c \<le> n \<Longrightarrow>
      parseNode n opts (pre @ render c @ rest) (int (length pre)) =
        Some (Inr (c, int (length pre) + int (length (render c))))"
    using TNode.IH by blast
  from children_parse [OF ih ck adj nc mk, of "pre @ ''<'' @ t @ renderAttrs a @ ''>''" rest "[]"]
  have "parseChildren m opts S t q [] = Some (Inr (k, e))"
    by (simp add: S_def body_def P_def q_def e_def ac_simps)
  with node_open [OF tk da aa, of m pre body]
  have "parseNode n opts S P = Some (Inr (TNode t a k, e))"
    by (simp add: m S_def P_def q_def)
  then show ?case by (simp add: S_def body_def P_def q_def e_def ac_simps)
qed

lemma str_includes_char: "str_includes w [c] = (c \<in> set w)"
  by (simp add: str_includes_def indexOf_unfold clampPos_def indexFrom_char)

lemma writeAttrs_render:
  "list_all attrOk a \<Longrightarrow> writeAttrs noOptions a out = out @ renderAttrs a"
proof (induction a arbitrary: out)
  case Nil
  then show ?case by (simp add: renderAttrs_Nil)
next
  case (Cons kv a)
  obtain k v where kv: "kv = (k, v)" by (cases kv)
  from Cons.prems have ok: "attrOk (k, v)" and rest: "list_all attrOk a" by (simp_all add: kv)
  show ?case
  proof (cases v)
    case None
    with Cons.IH [OF rest] show ?thesis
      by (simp add: kv renderAttrs_Cons renderAttr_def noOptions_def testOpt_def)
  next
    case (Some w)
    with ok have "trim w = w" by (simp add: attrOk_def)
    with Cons.IH [OF rest] Some show ?thesis
      by (simp add: kv renderAttrs_Cons renderAttr_def quoteFor_def noOptions_def testOpt_def
          str_includes_char)
  qed
qed

lemma write_children:
  assumes "\<And>c nodes d cp out. c \<in> set k \<Longrightarrow> canonical sc c \<Longrightarrow>
      write_nodes noOptions [] (c # nodes) d cp out = write_nodes noOptions [] nodes d cp (out @ render c)"
    and "list_all (canonical sc) k"
  shows "write_nodes noOptions [] k d cp out = out @ concat (map render k)"
  using assms by (induction k arbitrary: out) simp_all

lemma write_node:
  assumes "canonical sc c"
  shows "write_nodes noOptions [] (c # nodes) d cp out =
     write_nodes noOptions [] nodes d cp (out @ render c)"
  using assms
proof (induction c arbitrary: nodes d cp out)
  case (Text s)
  then show ?case by (simp add: textOk_def)
next
  case (TNode t a k)
  from TNode.prems have tk: "tagOk sc t" and aa: "list_all attrOk a"
    and ck: "list_all (canonical sc) k" by simp_all
  from tk have q: "\<not> (case t of [] \<Rightarrow> False | c # cs \<Rightarrow> c = CHR ''?'')"
    by (cases t) (simp_all add: tagOk_def)
  have ih: "\<And>c nodes d cp out. c \<in> set k \<Longrightarrow> canonical sc c \<Longrightarrow>
      write_nodes noOptions [] (c # nodes) d cp out = write_nodes noOptions [] nodes d cp (out @ render c)"
    using TNode.IH by blast
  have sk: "\<not> testOpt (skipTags noOptions) t" by (simp add: noOptions_def testOpt_def)
  from q sk show ?case
    by (simp add: Let_def writeAttrs_render [OF aa] write_children [OF ih ck])
qed

lemma stringify_render:
  assumes "canonical sc c" and "isElement c"
  shows "stringify noOptions [c] = render c"
proof -
  from render_element_open [OF assms(2)] obtain r where r: "render c = CHR ''<'' # r" by blast
  have "write_nodes noOptions [] [c] 0 False [] = render c"
    using write_node [OF assms(1), of "[]" 0 False "[]"] by simp
  then show ?thesis by (simp add: stringify_def noOptions_def r)
qed

section \<open>Facts about the entry point\<close>

lemma parse_scan:
  assumes "optAttrValue opts = None" and "\<not> optParseNode opts"
    and "optFilter opts = None" and "\<not> optSimplify opts"
  shows "parse n rx opts S =
     (case parseChildren n (scanOf opts) S [] (optPos opts) [] of
        None \<Rightarrow> None
      | Some (Inl e) \<Rightarrow> Some (Inl e)
      | Some (Inr (out, p)) \<Rightarrow> Some (Inr (Nodes out)))"
  using assms by (simp add: parse_def finish_def split: option.splits sum.splits)

lemma parse_default:
  "parse n rx defaultOptions S =
     (case parseChildren n defaultScan S [] 0 [] of
        None \<Rightarrow> None
      | Some (Inl e) \<Rightarrow> Some (Inl e)
      | Some (Inr (out, p)) \<Rightarrow> Some (Inr (Nodes out)))"
  by (simp add: parse_scan defaultOptions_def scanOf_def defaultScan_def)

lemma canonical_document:
  assumes "canonical DEFAULT_SELF_CLOSING c" and "isElement c" and "scanSteps c < n"
  shows "parse n rx defaultOptions (render c) = Some (Inr (Nodes [c]))"
proof -
  from assms(2) obtain t a k where c: "c = TNode t a k" by (cases c) (simp_all add: isElement_def)
  from assms(3) scanSteps_pos [of c] obtain m where m: "n = Suc m" and m1: "scanSteps c \<le> m"
    by (cases n) simp_all
  from m1 scanSteps_pos [of c] obtain m' where m': "m = Suc m'" by (cases m) simp_all
  have sc: "selfClosingTags defaultScan = DEFAULT_SELF_CLOSING" by (simp add: defaultScan_def)
  from assms(1) have tk: "tagOk (selfClosingTags defaultScan) t" by (simp add: c sc)
  define X where "X = renderAttrs a @ ''>'' @ concat (map render k) @ ''</'' @ t @ ''>''"
  have rX: "render c = ''<'' @ t @ X" by (simp add: c X_def)
  from canonical_parses [of defaultScan c m "[]" "[]"] assms(1,2) m1
  have "parseNode m defaultScan ([] @ ''<'' @ t @ X) (int (length ([] :: string))) =
      Some (Inr (TNode t a k, int (length (render c))))"
    by (simp add: sc c X_def)
  from child_node_step [OF tk this, of "[]" "[]"]
  have "parseChildren n defaultScan (render c) [] 0 [] =
      parseChildren m defaultScan (render c) [] (int (length (render c))) [c]"
    by (simp add: m c X_def)
  moreover have "charAt (render c) (int (length (render c))) = None"
    by (simp add: charAt_def)
  from pc_end [OF this, of m' defaultScan "[]" "[c]"]
  have "parseChildren m defaultScan (render c) [] (int (length (render c))) [c] =
      Some (Inr ([c], int (length (render c))))" by (simp add: m')
  ultimately show ?thesis by (simp add: parse_default)
qed

section \<open>Round trip\<close>

text \<open>
  C1, as the program has it. Let \<open>t\<close> be an element that is canonical for the default
  self-closing names, and let the document be its text \<open>render t\<close>: every element has its open
  and its close tag, values are quoted with the double quote unless they hold one, and there
  is no white space around texts and values. Then \<open>parse\<close> with the default options returns
  the one tree \<open>t\<close>, as soon as the bound exceeds \<open>scanSteps t\<close>, and \<open>stringify\<close> without options
  gives the document back from it. The literal document of the tests is of this kind and
  round-trips. A well-formed document outside this form need not: \<open><a/>\<close> parses to the
  element \<open>a\<close>, which is written as \<open><a></a>\<close>.
\<close>

theorem C1_round_trip:
  assumes "canonical DEFAULT_SELF_CLOSING t" and "isElement t" and "scanSteps t < n"
  shows "parse n rx defaultOptions (render t) = Some (Inr (Nodes [t])) \<and>
       stringify noOptions [t] = render t \<and>
       parse 20 rx defaultOptions ''<test a=\"value\"><child a='g\"g'>text</child></test>'' =
         Some (Inr (Nodes [TNode ''test'' [(''a'', Some ''value'')]
           [TNode ''child'' [(''a'', Some ''g\"g'')] [Text ''text'']]])) \<and>
       stringify noOptions [TNode ''test'' [(''a'', Some ''value'')]
           [TNode ''child'' [(''a'', Some ''g\"g'')] [Text ''text'']]] =
         ''<test a=\"value\"><child a='g\"g'>text</child></test>''"
proof -
  have e1: "parse 20 rx defaultOptions ''<test a=\"value\"><child a='g\"g'>text</child></test>'' =
         Some (Inr (Nodes [TNode ''test'' [(''a'', Some ''value'')]
           [TNode ''child'' [(''a'', Some ''g\"g'')] [Text ''text'']]]))"
    by code_simp
  have e2: "stringify noOptions [TNode ''test'' [(''a'', Some ''value'')]
           [TNode ''child'' [(''a'', Some ''g\"g'')] [Text ''text'']]] =
         ''<test a=\"value\"><child a='g\"g'>text</child></test>''"
    by code_simp
  from canonical_document [OF assms, of rx] stringify_render [OF assms(1,2)] e1 e2
  show ?thesis by simp
qed

theorem C1_round_trip_witness:
  "parse 6 (\<lambda>name v S. - 1) defaultOptions
       (render (TNode ''test'' [(''a'', Some ''value'')]
           [TNode ''child'' [(''a'', Some ''g\"g'')] [Text ''text'']])) =
     Some (Inr (Nodes [TNode ''test'' [(''a'', Some ''value'')]
           [TNode ''child'' [(''a'', Some ''g\"g'')] [Text ''text'']]])) \<and>
   stringify noOptions [TNode ''test'' [(''a'', Some ''value'')]
           [TNode ''child'' [(''a'', Some ''g\"g'')] [Text ''text'']]] =
     render (TNode ''test'' [(''a'', Some ''value'')]
           [TNode ''child'' [(''a'', Some ''g\"g'')] [Text ''text'']]) \<and>
   render (TNode ''test'' [(''a'', Some ''value'')]
           [TNode ''child'' [(''a'', Some ''g\"g'')] [Text ''text'']]) =
     ''<test a=\"value\"><child a='g\"g'>text</child></test>''"
proof -
  define T where "T = TNode ''test'' [(''a'', Some ''value'')]
           [TNode ''child'' [(''a'', Some ''g\"g'')] [Text ''text'']]"
  have c: "canonical DEFAULT_SELF_CLOSING T" unfolding T_def by code_simp
  have e: "isElement T" unfolding T_def by code_simp
  have f: "scanSteps T < 6" unfolding T_def by simp
  have r: "render T = ''<test a=\"value\"><child a='g\"g'>text</child></test>''"
    unfolding T_def by code_simp
  from C1_round_trip [OF c e f, of "\<lambda>name v S. - 1"] r
  show ?thesis unfolding T_def by simp
qed

theorem C1_round_trip_counterexample:
  "parse 20 (\<lambda>name v S. - 1) defaultOptions ''<a/>'' = Some (Inr (Nodes [TNode ''a'' [] []])) \<and>
   stringify noOptions [TNode ''a'' [] []] = ''<a></a>'' \<and>
   ''<a></a>'' \<noteq> ''<a/>''"
  by code_simp

section \<open>The content extractor\<close>

text \<open>
  C8. \<open>toContentString\<close> of a text leaf is one space followed by the text as it is; of a list
  it is the content strings of the elements joined with one space and then trimmed; of an
  element it is the content string of the list of its children. Parsing
  \<open><test>f<case number="2">f</case>f</test>\<close> and extracting the content gives \<open>f f  f\<close>, with
  two spaces before the last \<open>f\<close>.
\<close>

theorem C8_toContentString:
  "toContentString (Text s) = '' '' @ s \<and>
   toContentStrings xs = trim (join '' '' (map toContentString xs)) \<and>
   toContentString (TNode t a k) = toContentStrings k \<and>
   parse 20 rx defaultOptions ''<test>f<case number=\"2\">f</case>f</test>'' =
     Some (Inr (Nodes [TNode ''test'' []
       [Text ''f'', TNode ''case'' [(''number'', Some ''2'')] [Text ''f''], Text ''f'']])) \<and>
   toContentStrings [TNode ''test'' []
       [Text ''f'', TNode ''case'' [(''number'', Some ''2'')] [Text ''f''], Text ''f'']] =
     ''f f  f''"
proof -
  have p: "parse 20 rx defaultOptions ''<test>f<case number=\"2\">f</case>f</test>'' =
     Some (Inr (Nodes [TNode ''test'' []
       [Text ''f'', TNode ''case'' [(''number'', Some ''2'')] [Text ''f''], Text ''f'']]))"
    by code_simp
  have c: "toContentStrings [TNode ''test'' []
       [Text ''f'', TNode ''case'' [(''number'', Some ''2'')] [Text ''f''], Text ''f'']] =
     ''f f  f''"
    by code_simp
  from p c show ?thesis by simp
qed


section \<open>Doctype entries\<close>




section \<open>Errors\<close>






section \<open>Attributes\<close>



section \<open>Script and style\<close>

text \<open>
  C5. For a \<open>script\<close> or \<open>style\<close> element whose open tag ends at a \<open>>\<close> (where the attribute
  loop stops, not after a \<open>/\<close>) and whose closing tag \<open></script>\<close> or \<open></style>\<close> follows the
  content, the element has one child: the text \<open>content\<close> between the open tag and the first
  closing tag, whatever it contains and up to its last character; the scan goes on after the
  closing tag. The second equation is the case of an open tag without attributes. The three
  inputs of the tests parse accordingly.
\<close>

theorem C5_script_style_verbatim:
  assumes "name = ''script'' \<or> name = ''style''"
    and "firstOccurrence (''</'' @ name @ ''>'') content"
    and "tagRest = [] \<or> (hd tagRest \<in> set NAME_END_CHARS \<and> last tagRest \<noteq> CHR ''/'')"
    and "parseAttrs (pre @ ''<'' @ name @ tagRest @ ''>'' @ content @ ''</'' @ name @ ''>'' @ rest)
           (int (length pre) + 1 + int (length name)) [] =
         (atts, int (length pre) + 1 + int (length name) + int (length tagRest), False)"
  shows "parseNode (Suc n) opts (pre @ ''<'' @ name @ tagRest @ ''>'' @ content @ ''</'' @ name @ ''>'' @ rest)
           (int (length pre)) =
         Some (Inr (TNode name atts [Text content],
           int (length (pre @ ''<'' @ name @ tagRest @ ''>'' @ content @ ''</'' @ name @ ''>'')))) \<and>
       parseNode (Suc n) opts (pre @ ''<'' @ name @ ''>'' @ content @ ''</'' @ name @ ''>'' @ rest)
           (int (length pre)) =
         Some (Inr (TNode name [] [Text content],
           int (length (pre @ ''<'' @ name @ ''>'' @ content @ ''</'' @ name @ ''>'')))) \<and>
       parse 20 rx defaultOptions ''<test><style>*{some:10px;}/* <tag> comment */</style></test>'' =
         Some (Inr (Nodes [TNode ''test'' []
           [TNode ''style'' [] [Text ''*{some:10px;}/* <tag> comment */'']]])) \<and>
       parse 20 rx defaultOptions ''<style>p { color: \"red\" }</style>'' =
         Some (Inr (Nodes [TNode ''style'' [] [Text ''p { color: \"red\" }'']])) \<and>
       parse 20 rx defaultOptions ''<test><script>$(\"<div>\")</script></test>'' =
         Some (Inr (Nodes [TNode ''test'' [] [TNode ''script'' [] [Text ''$(\"<div>\")'']]]))"
proof -
  have p1: "parse 20 rx defaultOptions ''<test><style>*{some:10px;}/* <tag> comment */</style></test>'' =
         Some (Inr (Nodes [TNode ''test'' []
           [TNode ''style'' [] [Text ''*{some:10px;}/* <tag> comment */'']]]))"
    by code_simp
  have p2: "parse 20 rx defaultOptions ''<style>p { color: \"red\" }</style>'' =
         Some (Inr (Nodes [TNode ''style'' [] [Text ''p { color: \"red\" }'']]))"
    by code_simp
  have p3: "parse 20 rx defaultOptions ''<test><script>$(\"<div>\")</script></test>'' =
         Some (Inr (Nodes [TNode ''test'' [] [TNode ''script'' [] [Text ''$(\"<div>\")'']]]))"
    by code_simp
  from assms(3) have a: "tagRest = [] \<or> hd tagRest \<in> set NAME_END_CHARS"
    and b: "tagRest = [] \<or> last tagRest \<noteq> CHR ''/''" by auto
  from script_node [OF assms(1) a assms(4) b assms(2), of n opts]
    script_node_plain [OF assms(1,2), of n opts pre rest] p1 p2 p3
  show ?thesis by simp
qed

theorem C5_script_style_verbatim_witness:
  "firstOccurrence (''</'' @ ''script'' @ ''>'') ''if (a<b) { $(\"<div>\") }'' \<and>
   hd '' async'' \<in> set NAME_END_CHARS \<and> last '' async'' \<noteq> CHR ''/'' \<and>
   parseAttrs (''<p>'' @ ''<'' @ ''script'' @ '' async'' @ ''>'' @ ''if (a<b) { $(\"<div>\") }'' @
       ''</'' @ ''script'' @ ''>'' @ ''</p>'') (3 + 1 + 6) [] = ([(''async'', None)], 3 + 1 + 6 + 6, False) \<and>
   parseNode (Suc 0) defaultScan (''<p>'' @ ''<'' @ ''script'' @ '' async'' @ ''>'' @
       ''if (a<b) { $(\"<div>\") }'' @ ''</'' @ ''script'' @ ''>'' @ ''</p>'') 3 =
     Some (Inr (TNode ''script'' [(''async'', None)] [Text ''if (a<b) { $(\"<div>\") }''], 49))"
proof -
  have h1: "''script'' = ''script'' \<or> ''script'' = ''style''" by simp
  have h2: "firstOccurrence (''</'' @ ''script'' @ ''>'') ''if (a<b) { $(\"<div>\") }''" by code_simp
  have h3: "'' async'' = [] \<or> (hd '' async'' \<in> set NAME_END_CHARS \<and> last '' async'' \<noteq> CHR ''/'')"
    by code_simp
  have h4: "parseAttrs (''<p>'' @ ''<'' @ ''script'' @ '' async'' @ ''>'' @ ''if (a<b) { $(\"<div>\") }'' @
       ''</'' @ ''script'' @ ''>'' @ ''</p>'') (int (length ''<p>'') + 1 + int (length ''script'')) [] =
       ([(''async'', None)], int (length ''<p>'') + 1 + int (length ''script'') + int (length '' async''), False)"
    by code_simp
  from C5_script_style_verbatim [OF h1 h2 h3 h4, of 0 defaultScan "\<lambda>a v s. - 1"] h2 h3 h4
  show ?thesis by simp
qed

section \<open>The simplify transform\<close>



section \<open>Unterminated comments in a stream\<close>

text \<open>
  C9. A stream whose chunks together are \<open><!--\<close> followed by a text without \<open>-->\<close>, cut into
  chunks in any way, produces no item at all, on both adapters and for all scanner options
  (\<open>keepComments\<close> among them), with offset 0; nothing is produced at the end of the stream
  either, which has no handler. And whenever the loop of \<open>transform\<close> stands at a \<open><!--\<close> for
  which the buffered data has no \<open>-->\<close>, it stops without pushing anything and keeps the data
  from \<open>lastPos\<close> on.
\<close>

theorem C9_unterminated_comment_not_emitted:
  "(concat chunks = ''<!--'' @ body \<and> \<not> str_includes body ''-->'' \<longrightarrow>
      transformStream (n + 3) 0 opts chunks = Some (Inr []) \<and>
      transformWebStream (n + 3) 0 opts chunks = Some (Inr [])) \<and>
   (indexOf dat ''<'' pos + 1 = q \<and> q \<noteq> 0 \<and> charAt dat q = Some CHR ''!'' \<and>
    charAt dat (q + 1) = Some CHR ''-'' \<and> charAt dat (q + 2) = Some CHR ''-'' \<and>
    indexOf dat ''-->'' (q + 3) = - 1 \<longrightarrow>
      transformLoop (Suc n) opts dat pos lastPos items =
        Some (Inr (items, \<lparr>data = sliceFrom dat lastPos, position = 0\<rparr>)))"
proof -
  have a: "transformStream (n + 3) 0 opts chunks = Some (Inr []) \<and>
      transformWebStream (n + 3) 0 opts chunks = Some (Inr [])"
    if "concat chunks = ''<!--'' @ body" and "\<not> str_includes body ''-->''"
    using run_comment_only [OF that(2), of "[]" chunks n opts] that(1)
    by (simp add: transformStream_def transformWebStream_def numeral_3_eq_3)
  have b: "transformLoop (Suc n) opts dat pos lastPos items =
        Some (Inr (items, \<lparr>data = sliceFrom dat lastPos, position = 0\<rparr>))"
    if "indexOf dat ''<'' pos + 1 = q" and "q \<noteq> 0" and "charAt dat q = Some CHR ''!''"
      and "charAt dat (q + 1) = Some CHR ''-''" and "charAt dat (q + 2) = Some CHR ''-''"
      and "indexOf dat ''-->'' (q + 3) = - 1"
    using that by (simp add: Let_def)
  from a b show ?thesis by blast
qed

theorem C9_unterminated_comment_not_emitted_witness:
  "concat [''<!-'', ''- never <b>closed</b'', ''> at all''] = ''<!--'' @ '' never <b>closed</b> at all'' \<and>
   \<not> str_includes '' never <b>closed</b> at all'' ''-->'' \<and>
   transformStream (0 + 3) 0 (defaultScan\<lparr>keepComments := True\<rparr>)
     [''<!-'', ''- never <b>closed</b'', ''> at all''] = Some (Inr []) \<and>
   transformWebStream (0 + 3) 0 (defaultScan\<lparr>keepComments := True\<rparr>)
     [''<!-'', ''- never <b>closed</b'', ''> at all''] = Some (Inr []) \<and>
   indexOf ''<a></a><!-- open'' ''<'' 7 + 1 = 8 \<and>
   charAt ''<a></a><!-- open'' 8 = Some CHR ''!'' \<and>
   charAt ''<a></a><!-- open'' (8 + 1) = Some CHR ''-'' \<and>
   charAt ''<a></a><!-- open'' (8 + 2) = Some CHR ''-'' \<and>
   indexOf ''<a></a><!-- open'' ''-->'' (8 + 3) = - 1 \<and>
   transformLoop (Suc 0) (defaultScan\<lparr>keepComments := True\<rparr>) ''<a></a><!-- open'' 7 7
       [TNode ''a'' [] []] =
     Some (Inr ([TNode ''a'' [] []], \<lparr>data = sliceFrom ''<a></a><!-- open'' 7, position = 0\<rparr>))"
proof -
  have h1: "concat [''<!-'', ''- never <b>closed</b'', ''> at all''] =
      ''<!--'' @ '' never <b>closed</b> at all'' \<and>
      \<not> str_includes '' never <b>closed</b> at all'' ''-->''"
    by code_simp
  have h2: "indexOf ''<a></a><!-- open'' ''<'' 7 + 1 = 8 \<and> (8::int) \<noteq> 0 \<and>
      charAt ''<a></a><!-- open'' 8 = Some CHR ''!'' \<and>
      charAt ''<a></a><!-- open'' (8 + 1) = Some CHR ''-'' \<and>
      charAt ''<a></a><!-- open'' (8 + 2) = Some CHR ''-'' \<and>
      indexOf ''<a></a><!-- open'' ''-->'' (8 + 3) = - 1"
    by code_simp
  note t1 = C9_unterminated_comment_not_emitted [where chunks = "[''<!-'', ''- never <b>closed</b'', ''> at all'']"
      and body = "'' never <b>closed</b> at all''" and n = 0 and opts = "defaultScan\<lparr>keepComments := True\<rparr>",
      THEN conjunct1, rule_format, OF h1]
  note t2 = C9_unterminated_comment_not_emitted [where dat = "''<a></a><!-- open''" and pos = 7 and q = 8
      and n = 0 and opts = "defaultScan\<lparr>keepComments := True\<rparr>" and lastPos = 7
      and items = "[TNode ''a'' [] []]",
      THEN conjunct2, rule_format, OF h2]
  from h1 h2 t1 t2 show ?thesis by (simp only: simp_thms)
qed

section \<open>Termination\<close>

text \<open>
  C10 does not hold of the program: \<open>parse\<close> does not return on \<open>aaaaaaaa<script>\<close> nor on
  \<open>aaaaaaa<style>\<close>, whatever the bound on its steps; and a round of the attribute search whose
  match has no \<open><\<close> before it leaves the text as it is, so that the search never returns, as on
  the text \<open> id="x"\<close> searched for the id \<open>x\<close>.
\<close>

theorem C10_parse_need_not_return:
  "(\<forall>n. parse n rx defaultOptions ''aaaaaaaa<script>'' = None) \<and>
   (\<forall>n. parse n rx defaultOptions ''aaaaaaa<style>'' = None) \<and>
   (findEl S \<noteq> - 1 \<and> lastIndexOf S CHR ''<'' (findEl S) = - 1 \<longrightarrow>
      (\<forall>n. attrSearch n findEl opts S out = None)) \<and>
   (rx ''id'' ''x'' '' id=\"x\"'' = 0 \<longrightarrow>
      (\<forall>n. parse n rx (defaultOptions\<lparr>optAttrValue := Some ''x''\<rparr>) '' id=\"x\"'' = None))"
proof -
  have a: "parse n rx defaultOptions ''aaaaaaaa<script>'' = None" for n
    by (simp add: parse_default script_never_returns)
  have b: "parse n rx defaultOptions ''aaaaaaa<style>'' = None" for n
    by (simp add: parse_default style_never_returns)
  have c: "attrSearch n findEl opts S out = None"
    if "findEl S \<noteq> - 1" and "lastIndexOf S CHR ''<'' (findEl S) = - 1" for n
    using that by (rule attrSearch_no_progress)
  have d: "parse n rx (defaultOptions\<lparr>optAttrValue := Some ''x''\<rparr>) '' id=\"x\"'' = None"
    if r: "rx ''id'' ''x'' '' id=\"x\"'' = 0" for n
  proof -
    have l: "lastIndexOf '' id=\"x\"'' CHR ''<'' 0 = - 1" by code_simp
    have f: "findElements rx (Some ''id'') (Some ''x'') '' id=\"x\"'' = 0"
      using r by (simp add: findElements_def)
    from attrSearch_no_progress [of "findElements rx (Some ''id'') (Some ''x'')" "'' id=\"x\"''" n] f l
    show ?thesis by (simp add: parse_def defaultOptions_def)
  qed
  from a b c d show ?thesis by blast
qed

theorem C10_parse_need_not_return_witness:
  "(\<lambda>s. 0 :: int) ''id=x'' \<noteq> - 1 \<and> lastIndexOf ''id=x'' CHR ''<'' ((\<lambda>s. 0) ''id=x'') = - 1 \<and>
   (\<forall>n. attrSearch n (\<lambda>s. 0) defaultScan ''id=x'' [] = None) \<and>
   (\<lambda>a v s. 0 :: int) ''id'' ''x'' '' id=\"x\"'' = 0 \<and>
   (\<forall>n. parse n (\<lambda>a v s. 0) (defaultOptions\<lparr>optAttrValue := Some ''x''\<rparr>) '' id=\"x\"'' = None)"
proof -
  have h1: "(\<lambda>s. 0 :: int) ''id=x'' \<noteq> - 1 \<and> lastIndexOf ''id=x'' CHR ''<'' ((\<lambda>s. 0) ''id=x'') = - 1"
    by code_simp
  have h2: "(\<lambda>a v s. 0 :: int) ''id'' ''x'' '' id=\"x\"'' = 0" by simp
  note t1 = C10_parse_need_not_return [where findEl = "\<lambda>s. 0" and S = "''id=x''" and opts = defaultScan
      and out = "[]", THEN conjunct2, THEN conjunct2, THEN conjunct1, rule_format, OF h1]
  note t2 = C10_parse_need_not_return [where rx = "\<lambda>a v s. 0",
      THEN conjunct2, THEN conjunct2, THEN conjunct2, rule_format, OF h2]
  from h1 h2 t1 t2 show ?thesis by blast
qed

end
